theory Spec2Isabelle
  imports Main "HOL-Library.AList" "HOL-Library.Extended_Nat" "HOL-Library.Product_Lexorder"
    "HOL-Library.Char_ord" "HOL-Library.List_Lexorder"
begin

section \<open>Identifiers, facts and the fixed vocabulary\<close>

text \<open>
  Modules, parcels and relation names are IRIs, which the program handles as Python
  strings. A fact of the graph store is a (subject, predicate, object) tuple. Its subject
  and its predicate are resources, hence strings; its object is a resource or a literal, and
  \<^verbatim>\<open>delete_parcel\<close> reckons with tuples that have a component which is not a \<^verbatim>\<open>str\<close>.
  The object of a fact is therefore a Python value, of which the program asks two things:
  whether it is a \<^verbatim>\<open>str\<close>, and whether it equals another value. \<open>Str s\<close> is the string s;
  \<open>NonStr v\<close> is a value of another type (a number, a boolean, a date), named by its
  lexical form v. \<open>is_str\<close> is \<^verbatim>\<open>isinstance(x, str)\<close>.
\<close>

type_synonym iri = string

datatype node = Str string | NonStr string

type_synonym triple = "iri \<times> iri \<times> node"

definition subj :: "triple \<Rightarrow> iri" where
  "subj t = fst t"

definition obj :: "triple \<Rightarrow> node" where
  "obj t = snd (snd t)"

fun is_str :: "node \<Rightarrow> bool" where
  "is_str (Str s) = True"
| "is_str (NonStr v) = False"

definition ns :: string where
  "ns = ''https://www.sfb1574.kit.edu/ontologies/FlexConveyor#''"

definition hasPossession :: iri where
  "hasPossession = ns @ ''hasPossession''"

definition isPossessedBy :: iri where
  "isPossessedBy = ns @ ''isPossessedBy''"

definition hasDestination :: iri where
  "hasDestination = ns @ ''hasDestination''"

definition containsFlexConveyorModule :: iri where
  "containsFlexConveyorModule = ns @ ''containsFlexConveyorModule''"

definition hasNorthConnection :: iri where
  "hasNorthConnection = ns @ ''hasNorthConnection''"

definition hasEastConnection :: iri where
  "hasEastConnection = ns @ ''hasEastConnection''"

definition hasSouthConnection :: iri where
  "hasSouthConnection = ns @ ''hasSouthConnection''"

definition hasWestConnection :: iri where
  "hasWestConnection = ns @ ''hasWestConnection''"

definition rdf_type :: iri where
  "rdf_type = ''http://www.w3.org/1999/02/22-rdf-syntax-ns#type''"

definition Parcel :: iri where
  "Parcel = ns @ ''Parcel''"

definition NamedIndividual :: iri where
  "NamedIndividual = ''http://www.w3.org/2002/07/owl#NamedIndividual''"

section \<open>Errors\<close>

text \<open>
  Every \<^verbatim>\<open>raise\<close> of the program is a value. The three \<^verbatim>\<open>ValueError\<close>s of
  \<^verbatim>\<open>flexconveyor_system.py\<close> are told apart by their message; \<^verbatim>\<open>KeyError\<close> and
  \<^verbatim>\<open>IndexError\<close> are what Python raises on a missing dictionary key and on a list index
  out of range, \<^verbatim>\<open>TypeError\<close> what \<^verbatim>\<open>_shorten_iri\<close> raises at \<^verbatim>\<open>"#" in iri\<close> for a
  value that is not a \<^verbatim>\<open>str\<close>; the last two are the failures of the store client.
\<close>

datatype 'm reason =
    ModuleNotFound 'm
  | NoValidDirection 'm 'm
  | ParcelNotFound node

datatype 'm error =
    ValueError "'m reason"
  | KeyError 'm
  | IndexError
  | TypeError
  | StoreError
  | PreconditionError

section \<open>The store client\<close>

text \<open>
  Modelled from the spec: the class \<^verbatim>\<open>GraphDB\<close> of the package \<^verbatim>\<open>graph_db_interface\<close>
  is imported by the program and is not part of it. The store below follows the capability
  contract of section 6 of the specification: \<^verbatim>\<open>factsGet\<close> returns the matching facts
  (empty when none match), \<^verbatim>\<open>factsAdd\<close> and \<^verbatim>\<open>factsDelete\<close> apply a batch or fail
  with a store error, \<^verbatim>\<open>factsUpdate\<close> with \<^verbatim>\<open>checkExist\<close> fails with a precondition
  error, leaving the facts unchanged, when an old fact is absent.

  The facts are a list, in the order in which the store enumerates them (the program reads
  the first match of a query). Which requests the store fails (connectivity, permission)
  is not decided by the program: it is the field \<open>denied\<close>, over which every theorem
  quantifies. The field \<open>journal\<close> records the mutation requests the store has received,
  so that "nothing is sent to the store" can be stated.

  A read hands out every matching fact as a tuple of its three components. The program passes
  as \<^verbatim>\<open>sub\<close> a module or the object it has read from a fact, so the subject pattern is a
  value; a subject, being a string, matches the pattern when the pattern is that string.
\<close>

datatype request =
    Add "triple list"
  | Delete "triple list"
  | Update "triple list" "triple list" bool

record store =
  facts :: "triple list"
  denied :: "request \<Rightarrow> bool"
  journal :: "request list"

definition bound :: "'a option \<Rightarrow> 'a \<Rightarrow> bool" where
  "bound pat x = (case pat of None \<Rightarrow> True | Some y \<Rightarrow> x = y)"

definition triples_get :: "store \<Rightarrow> node option \<Rightarrow> iri option \<Rightarrow> node option \<Rightarrow> triple list" where
  "triples_get d sub pred ob =
     filter (\<lambda>(s, p, ob'). bound sub (Str s) \<and> bound pred p \<and> bound ob ob') (facts d)"

definition insert_fact :: "triple \<Rightarrow> triple list \<Rightarrow> triple list" where
  "insert_fact t fs = (if t \<in> set fs then fs else fs @ [t])"

definition received :: "store \<Rightarrow> request \<Rightarrow> store" where
  "received d r = d\<lparr>journal := journal d @ [r]\<rparr>"

definition triples_add :: "store \<Rightarrow> triple list \<Rightarrow> (iri error + unit) \<times> store" where
  "triples_add d ts =
     (if denied d (Add ts) then (Inl StoreError, received d (Add ts))
      else (Inr (), (received d (Add ts))\<lparr>facts := fold insert_fact ts (facts d)\<rparr>))"

definition triples_delete :: "store \<Rightarrow> triple list \<Rightarrow> (iri error + unit) \<times> store" where
  "triples_delete d ts =
     (if denied d (Delete ts) then (Inl StoreError, received d (Delete ts))
      else (Inr (), (received d (Delete ts))\<lparr>facts := filter (\<lambda>t. t \<notin> set ts) (facts d)\<rparr>))"

definition triples_update ::
  "store \<Rightarrow> triple list \<Rightarrow> triple list \<Rightarrow> bool \<Rightarrow> (iri error + bool) \<times> store" where
  "triples_update d old new check_exist =
     (if denied d (Update old new check_exist)
      then (Inl StoreError, received d (Update old new check_exist))
      else if check_exist \<and> \<not> list_all (\<lambda>t. t \<in> set (facts d)) old
      then (Inl PreconditionError, received d (Update old new check_exist))
      else (Inr True, (received d (Update old new check_exist))
              \<lparr>facts := fold insert_fact new (filter (\<lambda>t. t \<notin> set old) (facts d))\<rparr>))"

text \<open>
  The program's two SPARQL queries have the shape \<^verbatim>\<open>SELECT ?o WHERE { <s> <p> ?o . }\<close>;
  the bindings of \<^verbatim>\<open>?o\<close> are the objects of the facts with that subject and predicate.
  The program reads \<^verbatim>\<open>binding["o"]["value"]\<close>, which in the JSON result is a string for
  every object: the IRI of a resource, the lexical form of a literal.
\<close>

fun json_value :: "node \<Rightarrow> string" where
  "json_value (Str s) = s"
| "json_value (NonStr v) = v"

definition query :: "store \<Rightarrow> iri \<Rightarrow> iri \<Rightarrow> iri list" where
  "query d s p = map (\<lambda>t. json_value (obj t)) (triples_get d (Some (Str s)) (Some p) None)"

section \<open>The state of a FlexConveyorSystem\<close>

text \<open>
  An entry of \<^verbatim>\<open>self.parcels\<close>: the key is the object of a possession fact, the position
  a module of the adjacency model, the destination \<^verbatim>\<open>None\<close> or the object of a
  destination fact.
\<close>

record parcel_info =
  current_position :: iri
  destination :: "node option"

datatype level = INFO | ERROR

datatype event =
    Initialized iri
  | ReachedDestination string string
  | DeletingParcel node
  | ParcelDeleted string
  | FailedToDelete node "iri error"
  | BuiltAdjacencyMatrix nat
  | ConveyingFrom iri iri
  | ParcelInfo "parcel_info option"
  | ModuleNotInMatrix iri
  | NoDirection iri iri
  | Conveying string
  | ConveyFailed "iri error"
  | UpdateResult bool
  | AddParcelFailed "iri error"
  | NotInDatabase node

text \<open>
  The dictionaries \<^verbatim>\<open>self.parcels\<close> and \<^verbatim>\<open>self.adjacency_matrix\<close> are association
  lists in insertion order: assigning to a key is \<^const>\<open>AList.update\<close> (the value is replaced in
  place, a new key goes to the end) and \<^verbatim>\<open>del\<close> is \<^const>\<open>AList.delete\<close>. A connection
  list holds \<^verbatim>\<open>None\<close> where a direction has no neighbour. The log file is the field
  \<open>log_file\<close>.
\<close>

record flexconveyor =
  system_iri :: iri
  db :: store
  parcels :: "(node \<times> parcel_info) list"
  adjacency_matrix :: "(iri \<times> iri option list) list"
  parcel_counter :: nat
  log_file :: "(level \<times> event) list"

definition logging :: "flexconveyor \<Rightarrow> level \<Rightarrow> event \<Rightarrow> flexconveyor" where
  "logging st l e = st\<lparr>log_file := log_file st @ [(l, e)]\<rparr>"

text \<open>
  \<^verbatim>\<open>_shorten_iri\<close> of a string: the part after the last \<^verbatim>\<open>#\<close> if there is one, else
  after the last \<^verbatim>\<open>/\<close>. Called with a value that is not a \<^verbatim>\<open>str\<close> it raises
  \<^verbatim>\<open>TypeError\<close>; that branch is written out at each call whose argument is the object
  of a fact.
\<close>

definition after_last :: "char \<Rightarrow> string \<Rightarrow> string" where
  "after_last c s = rev (takeWhile (\<lambda>x. x \<noteq> c) (rev s))"

definition shorten_iri :: "iri \<Rightarrow> string" where
  "shorten_iri i = (if CHR ''#'' \<in> set i then after_last (CHR ''#'') i else after_last (CHR ''/'') i)"

section \<open>delete\_parcel\<close>

text \<open>
  The two loops of \<^verbatim>\<open>delete_parcel\<close> keep a tuple read from the store when
  \<^verbatim>\<open>isinstance(triple, tuple) and len(triple) == 3 and all(isinstance(x, str) for x in triple)\<close>.
  What a read hands out is a tuple of three components, and its subject and predicate are
  strings: the condition is that the object is a \<^verbatim>\<open>str\<close> too. A fact with another object
  is skipped; when nothing is kept the call raises "not found", whatever the reads returned.
\<close>

definition str_triple :: "triple \<Rightarrow> bool" where
  "str_triple t = (case t of (s, p, ob) \<Rightarrow> list_all is_str [Str s, Str p, ob])"

definition delete_parcel :: "flexconveyor \<Rightarrow> node \<Rightarrow> (iri error + unit) \<times> flexconveyor" where
  "delete_parcel st parcel_iri =
     (let subject_triples = triples_get (db st) (Some parcel_iri) None None;
          object_triples = triples_get (db st) None None (Some parcel_iri);
          triples_to_delete = filter str_triple subject_triples @ filter str_triple object_triples
      in if triples_to_delete = []
         then (Inl (ValueError (ParcelNotFound parcel_iri)),
               logging st ERROR (NotInDatabase parcel_iri))
         else (case triples_delete (db st) triples_to_delete of
                 (r, d) \<Rightarrow> (r, st\<lparr>db := d\<rparr>)))"

section \<open>get\_parcels\<close>

text \<open>The first loop: one query per module, and one more for the destination of a parcel found.\<close>

fun scan :: "store \<Rightarrow> iri list \<Rightarrow> (node \<times> parcel_info) list \<Rightarrow> (node \<times> parcel_info) list" where
  "scan d [] ps = ps"
| "scan d (module_iri # ms) ps =
     (case triples_get d (Some (Str module_iri)) (Some hasPossession) None of
        [] \<Rightarrow> scan d ms ps
      | t # _ \<Rightarrow>
          (let parcel_iri = obj t;
               destination_iri =
                 (case triples_get d (Some parcel_iri) (Some hasDestination) None of
                    [] \<Rightarrow> None
                  | t' # _ \<Rightarrow> Some (obj t'))
           in scan d ms
                (AList.update parcel_iri
                   \<lparr>current_position = module_iri, destination = destination_iri\<rparr> ps)))"

text \<open>
  The second loop collects the parcels whose position is their destination. The position is a
  string, so the two are equal when the destination is that string. The log line shortens the
  key, which raises when the key is not a \<^verbatim>\<open>str\<close>; this loop is outside the \<^verbatim>\<open>try\<close>.
\<close>

fun find_arrived ::
  "(node \<times> parcel_info) list \<Rightarrow> flexconveyor \<Rightarrow> node list
     \<Rightarrow> (iri error + node list) \<times> flexconveyor" where
  "find_arrived [] st parcels_to_delete = (Inr parcels_to_delete, st)"
| "find_arrived ((parcel_iri, info) # rest) st parcels_to_delete =
     (if Some (Str (current_position info)) = destination info
      then (case parcel_iri of
              NonStr v \<Rightarrow> (Inl TypeError, st)
            | Str p \<Rightarrow>
                find_arrived rest
                  (logging st INFO
                     (ReachedDestination (shorten_iri p) (shorten_iri (current_position info))))
                  (parcels_to_delete @ [parcel_iri]))
      else find_arrived rest st parcels_to_delete)"

text \<open>
  The third loop deletes them; \<open>try_delete\<close> is one round of it, the \<^verbatim>\<open>try\<close> statement.
  The \<^verbatim>\<open>del\<close> is inside the \<^verbatim>\<open>try\<close>, after the call of \<^verbatim>\<open>delete_parcel\<close> and the
  log line that shortens the key: when one of them raises, the handler logs the error and the
  loop goes on with the entry still in \<^verbatim>\<open>self.parcels\<close>.
\<close>

definition try_delete :: "flexconveyor \<Rightarrow> node \<Rightarrow> flexconveyor" where
  "try_delete st parcel_iri =
     (case delete_parcel (logging st INFO (DeletingParcel parcel_iri)) parcel_iri of
        (Inr _, st') \<Rightarrow>
          (case parcel_iri of
             NonStr v \<Rightarrow> logging st' ERROR (FailedToDelete parcel_iri TypeError)
           | Str p \<Rightarrow>
               (logging st' INFO (ParcelDeleted (shorten_iri p)))
                 \<lparr>parcels := AList.delete parcel_iri (parcels st')\<rparr>)
      | (Inl e, st') \<Rightarrow> logging st' ERROR (FailedToDelete parcel_iri e))"

fun delete_arrived :: "node list \<Rightarrow> flexconveyor \<Rightarrow> flexconveyor" where
  "delete_arrived [] st = st"
| "delete_arrived (parcel_iri # rest) st = delete_arrived rest (try_delete st parcel_iri)"

text \<open>
  \<^verbatim>\<open>get_parcels\<close> returns \<^verbatim>\<open>self.parcels\<close>: the field \<open>parcels\<close> of the state returned.
\<close>

definition get_parcels :: "flexconveyor \<Rightarrow> (iri error + unit) \<times> flexconveyor" where
  "get_parcels st =
     (let st1 = st\<lparr>parcels := scan (db st) (map fst (adjacency_matrix st)) []\<rparr>
      in case find_arrived (parcels st1) st1 [] of
           (Inl e, st2) \<Rightarrow> (Inl e, st2)
         | (Inr parcels_to_delete, st2) \<Rightarrow> (Inr (), delete_arrived parcels_to_delete st2))"

section \<open>build\_adjacency\_matrix and the constructor\<close>

text \<open>
  One query for the modules of the system, then four queries per module, in the order north,
  east, south, west; a direction without a binding gives \<^verbatim>\<open>None\<close>.
\<close>

definition connection :: "store \<Rightarrow> iri \<Rightarrow> iri \<Rightarrow> iri option" where
  "connection d module_iri property_iri =
     (case query d module_iri property_iri of [] \<Rightarrow> None | v # _ \<Rightarrow> Some v)"

definition connections_list :: "store \<Rightarrow> iri \<Rightarrow> iri option list" where
  "connections_list d module_iri =
     map (connection d module_iri)
       [hasNorthConnection, hasEastConnection, hasSouthConnection, hasWestConnection]"

definition build_adjacency_matrix :: "flexconveyor \<Rightarrow> flexconveyor" where
  "build_adjacency_matrix st =
     (let modules_queried = query (db st) (system_iri st) containsFlexConveyorModule;
          adjacency_dict =
            fold (\<lambda>module_iri dict. AList.update module_iri (connections_list (db st) module_iri) dict)
              modules_queried []
      in logging (st\<lparr>adjacency_matrix := adjacency_dict\<rparr>) INFO
           (BuiltAdjacencyMatrix (length adjacency_dict)))"

text \<open>
  \<^verbatim>\<open>__init__\<close>: the store the client connects to is the argument \<open>d\<close>. The attributes
  \<^verbatim>\<open>adjacency_matrix\<close> and \<^verbatim>\<open>parcel_counter\<close> do not exist before they are assigned;
  the record starts them at \<open>[]\<close> and \<open>0\<close>. When \<^verbatim>\<open>get_parcels\<close> raises there is no
  instance.
\<close>

definition init :: "iri \<Rightarrow> store \<Rightarrow> iri error + flexconveyor" where
  "init system d =
     (let st0 = \<lparr>system_iri = system, db = d, parcels = [], adjacency_matrix = [],
                 parcel_counter = 0, log_file = []\<rparr>;
          st1 = build_adjacency_matrix st0
      in case get_parcels st1 of
           (Inl e, st2) \<Rightarrow> Inl e
         | (Inr _, st2) \<Rightarrow>
             (let st3 = st2\<lparr>parcel_counter := length (parcels st2)\<rparr>
              in Inr (logging st3 INFO (Initialized system))))"

section \<open>convey\<close>

definition directions :: "string list" where
  "directions = [''north'', ''east'', ''south'', ''west'']"

text \<open>The \<^verbatim>\<open>for idx, target in enumerate(connections)\<close> loop with its \<^verbatim>\<open>break\<close>.\<close>

fun first_match :: "iri option list \<Rightarrow> iri \<Rightarrow> nat \<Rightarrow> nat option" where
  "first_match [] next_module_iri idx = None"
| "first_match (target # rest) next_module_iri idx =
     (if target = Some next_module_iri then Some idx
      else first_match rest next_module_iri (Suc idx))"

text \<open>
  \<^verbatim>\<open>parcel_iri\<close> is the object of the first possession fact of the module, or \<^verbatim>\<open>""\<close>
  when the read returns nothing (a tuple that is read has three components, so the test
  \<^verbatim>\<open>len(parcel_iri_list[0]) > 2\<close> holds for it). The message is built with
  \<^verbatim>\<open>_shorten_iri(parcel_iri)\<close> after the direction is resolved and before the update is
  sent, outside the \<^verbatim>\<open>try\<close>.
\<close>

definition convey ::
  "flexconveyor \<Rightarrow> iri \<Rightarrow> iri \<Rightarrow> (iri error + bool \<times> string) \<times> flexconveyor" where
  "convey st current_module next_module_iri =
     (let st1 = logging st INFO (ConveyingFrom current_module next_module_iri);
          parcel_iri_list =
            triples_get (db st1) (Some (Str current_module)) (Some hasPossession) None;
          parcel_iri = (case parcel_iri_list of [] \<Rightarrow> Str [] | t # _ \<Rightarrow> obj t);
          parcel = map_of (parcels st1) parcel_iri;
          st2 = logging st1 INFO (ParcelInfo parcel)
      in case map_of (adjacency_matrix st2) current_module of
           None \<Rightarrow>
             (Inl (ValueError (ModuleNotFound current_module)),
              logging st2 ERROR (ModuleNotInMatrix current_module))
         | Some connections \<Rightarrow>
             (case first_match connections next_module_iri 0 of
                None \<Rightarrow>
                  (Inl (ValueError (NoValidDirection current_module next_module_iri)),
                   logging st2 ERROR (NoDirection current_module next_module_iri))
              | Some idx \<Rightarrow>
                  if length directions \<le> idx then (Inl IndexError, st2)
                  else
                    (case parcel_iri of
                       NonStr v \<Rightarrow> (Inl TypeError, st2)
                     | Str p \<Rightarrow>
                         (let direction = directions ! idx;
                              log_msg = ''Conveying '' @ shorten_iri p @ '' into '' @ direction
                                          @ '' Direction.'';
                              st3 = logging st2 INFO (Conveying log_msg);
                              triples_to_delete =
                                [(current_module, hasPossession, parcel_iri),
                                 (p, isPossessedBy, Str current_module)];
                              triples_to_insert =
                                [(next_module_iri, hasPossession, parcel_iri),
                                 (p, isPossessedBy, Str next_module_iri)]
                          in case triples_update (db st3) triples_to_delete triples_to_insert True of
                               (Inl e, d) \<Rightarrow>
                                 (Inl e, logging (st3\<lparr>db := d\<rparr>) ERROR (ConveyFailed e))
                             | (Inr result, d) \<Rightarrow>
                                 (Inr (result, log_msg),
                                  logging (st3\<lparr>db := d\<rparr>) INFO (UpdateResult result))))))"

section \<open>add\_parcel\<close>

text \<open>Python's \<^verbatim>\<open>str\<close> of a non-negative integer: its decimal digits.\<close>

function str_nat :: "nat \<Rightarrow> string" where
  "str_nat n =
     (if n < 10 then [''0123456789'' ! n]
      else str_nat (n div 10) @ [''0123456789'' ! (n mod 10)])"
  by pat_completeness auto
termination
  by (relation "measure (\<lambda>n. n)") auto

declare str_nat.simps [simp del]

definition add_parcel :: "flexconveyor \<Rightarrow> iri \<Rightarrow> iri \<Rightarrow> (iri error + unit) \<times> flexconveyor" where
  "add_parcel st destination_iri start_module_iri =
     (let parcel_iri = ns @ ''parcel'' @ str_nat (parcel_counter st + 1);
          triples_to_insert =
            [(parcel_iri, rdf_type, Str Parcel),
             (parcel_iri, rdf_type, Str NamedIndividual),
             (parcel_iri, hasDestination, Str destination_iri),
             (parcel_iri, isPossessedBy, Str start_module_iri),
             (start_module_iri, hasPossession, Str parcel_iri)]
      in case triples_add (db st) triples_to_insert of
           (Inl e, d) \<Rightarrow> (Inl e, logging (st\<lparr>db := d\<rparr>) ERROR (AddParcelFailed e))
         | (Inr _, d) \<Rightarrow>
             (case get_parcels (st\<lparr>db := d, parcel_counter := parcel_counter st + 1\<rparr>) of
                (Inl e, st') \<Rightarrow> (Inl e, logging st' ERROR (AddParcelFailed e))
              | (Inr _, st') \<Rightarrow> (Inr (), st')))"

section \<open>find\_path\<close>

text \<open>
  \<^verbatim>\<open>find_path\<close> reads \<^verbatim>\<open>self.adjacency_matrix\<close> and nothing else of the instance, and
  assigns no attribute: it is a function of the adjacency model and the two identifiers. It
  works for any identifiers that can be compared, as the tuples on the heap are; for IRIs
  the order is that of Python strings. What it prints is returned next to its result.
\<close>

datatype 'm message =
    StartNotFound 'm
  | TargetNotFound 'm
  | NoPathFound 'm 'm
  | PathFound enat nat

text \<open>
  The graph built from the dictionary: the neighbours of a module are its connections that are
  not \<^verbatim>\<open>None\<close>, each with weight 1. \<^verbatim>\<open>graph.get(current_module, [])\<close> is \<open>graph_get\<close>.
\<close>

definition neighbours :: "'m option list \<Rightarrow> ('m \<times> nat) list" where
  "neighbours connections = [(connected_module, 1). Some connected_module \<leftarrow> connections]"

definition build_graph :: "('m \<times> 'm option list) list \<Rightarrow> ('m \<times> ('m \<times> nat) list) list" where
  "build_graph am = map (\<lambda>(module_id, connections). (module_id, neighbours connections)) am"

definition graph_get :: "('m \<times> ('m \<times> nat) list) list \<Rightarrow> 'm \<Rightarrow> ('m \<times> nat) list" where
  "graph_get graph m = (case map_of graph m of None \<Rightarrow> [] | Some edges \<Rightarrow> edges)"

text \<open>
  The heap holds tuples \<^verbatim>\<open>(distance, module)\<close>, compared lexicographically.
  \<^verbatim>\<open>heappush\<close> adds a tuple, \<^verbatim>\<open>heappop\<close> removes and returns a least one: the heap is
  the list of the tuples it holds.
\<close>

definition heappop :: "('a::linorder) list \<Rightarrow> 'a \<times> 'a list" where
  "heappop pq = (let x = fold min (tl pq) (hd pq) in (x, remove1 x pq))"

text \<open>
  \<^verbatim>\<open>distances\<close> and \<^verbatim>\<open>previous\<close> are dictionaries over the modules; a distance is a
  number or \<^verbatim>\<open>float("infinity")\<close>. The inner loop over the neighbours of the module just
  popped: \<^verbatim>\<open>distances[neighbor]\<close> raises \<^verbatim>\<open>KeyError\<close> for a neighbour that is not a key.
\<close>

type_synonym 'm search = "('m \<rightharpoonup> enat) \<times> ('m \<rightharpoonup> 'm option) \<times> (nat \<times> 'm) list"

fun relax ::
  "('m \<times> nat) list \<Rightarrow> 'm \<Rightarrow> nat \<Rightarrow> 'm set \<Rightarrow> 'm search \<Rightarrow> 'm error + 'm search" where
  "relax [] current_module current_distance visited s = Inr s"
| "relax ((neighbor, weight) # rest) current_module current_distance visited
     (distances, previous, pq) =
     (if neighbor \<notin> visited
      then (case distances neighbor of
              None \<Rightarrow> Inl (KeyError neighbor)
            | Some dn \<Rightarrow>
                (let distance = current_distance + weight
                 in if enat distance < dn
                    then relax rest current_module current_distance visited
                           (distances(neighbor \<mapsto> enat distance),
                            previous(neighbor \<mapsto> Some current_module),
                            (distance, neighbor) # pq)
                    else relax rest current_module current_distance visited
                           (distances, previous, pq)))
      else relax rest current_module current_distance visited (distances, previous, pq))"

lemma fold_min_in: "fold min xs (x::'a::linorder) \<in> set (x # xs)"
  by (induction xs arbitrary: x) (auto simp: min_def)

lemma heappop_in: "pq \<noteq> [] \<Longrightarrow> heappop pq = (x, pq') \<Longrightarrow> x \<in> set pq \<and> pq' = remove1 x pq"
  using fold_min_in[of "tl pq" "hd pq"] by (cases pq) (auto simp: heappop_def Let_def)

lemma heappop_length: "pq \<noteq> [] \<Longrightarrow> heappop pq = (x, pq') \<Longrightarrow> length pq' < length pq"
proof -
  assume "pq \<noteq> []" "heappop pq = (x, pq')"
  then have "x \<in> set pq" "pq' = remove1 x pq" using heappop_in by blast+
  moreover from this have "0 < length pq" by (auto intro: length_pos_if_in_set)
  ultimately show ?thesis by (simp add: length_remove1)
qed

text \<open>
  The \<^verbatim>\<open>while pq\<close> loop. It ends when the heap is empty or the target is popped; each round
  either visits a new module of the graph or shortens the heap.
\<close>

function dijkstra ::
  "('m::linorder \<times> ('m \<times> nat) list) list \<Rightarrow> 'm \<Rightarrow> 'm search \<Rightarrow> 'm set
     \<Rightarrow> 'm error + ('m \<rightharpoonup> enat) \<times> ('m \<rightharpoonup> 'm option)" where
  "dijkstra graph target (distances, previous, pq) visited =
     (if pq = [] then Inr (distances, previous)
      else (case heappop pq of
              ((current_distance, current_module), pq') \<Rightarrow>
                if current_module \<in> visited
                then dijkstra graph target (distances, previous, pq') visited
                else if current_module = target then Inr (distances, previous)
                else (case relax (graph_get graph current_module) current_module
                             current_distance (insert current_module visited)
                             (distances, previous, pq') of
                        Inl e \<Rightarrow> Inl e
                      | Inr s \<Rightarrow> dijkstra graph target s (insert current_module visited))))"
  by pat_completeness auto

termination
proof (relation "measures [\<lambda>(graph, target, (distances, previous, pq), visited). card (fst ` set graph - visited),
          \<lambda>(graph, target, (distances, previous, pq), visited). length pq]", goal_cases)
  case 1
  then show ?case by simp
next
  case (2 graph target distances previous pq visited x y cd cm)
  then show ?case using heappop_length[of pq "(cd, cm)" y] by auto
next
  case (3 graph target distances previous pq visited x y cd cm s)
  show ?case
  proof (cases "cm \<in> fst ` set graph")
    case True
    have "card (fst ` set graph - insert cm visited) < card (fst ` set graph - visited)"
      using True 3 by (intro psubset_card_mono) auto
    then show ?thesis by auto
  next
    case False
    then have "graph_get graph cm = []"
      by (auto simp: graph_get_def split: option.splits dest: map_of_SomeD intro: rev_image_eqI)
    with 3 have "s = (distances, previous, y)" by simp
    moreover have "fst ` set graph - insert cm visited = fst ` set graph - visited"
      using False by auto
    ultimately show ?thesis using heappop_length[of pq "(cd, cm)" y] 3 by auto
  qed
qed


declare dijkstra.simps [simp del]

text \<open>
  The loop that follows \<^verbatim>\<open>previous\<close> back from the target until it reads \<^verbatim>\<open>None\<close>. On
  a dictionary with a cycle it would not end: \<open>None\<close> is "does not return".
\<close>

partial_function (option) walk_back ::
  "('m \<rightharpoonup> 'm option) \<Rightarrow> 'm option \<Rightarrow> 'm list \<Rightarrow> ('m error + 'm list) option" where
  "walk_back previous current path =
     (case current of
        None \<Rightarrow> Some (Inr path)
      | Some c \<Rightarrow>
          (case previous c of
             None \<Rightarrow> Some (Inl (KeyError c))
           | Some p \<Rightarrow> walk_back previous p (path @ [c])))"

declare walk_back.simps [code]

definition find_path ::
  "('m::linorder \<times> 'm option list) list \<Rightarrow> 'm \<Rightarrow> 'm
     \<Rightarrow> ('m message list \<times> ('m error + 'm list option)) option" where
  "find_path adjacency start_module_iri target_module_iri =
     (let graph = build_graph adjacency;
          modules = map fst adjacency
      in if start_module_iri \<notin> set modules
         then Some ([StartNotFound start_module_iri], Inr None)
         else if target_module_iri \<notin> set modules
         then Some ([TargetNotFound target_module_iri], Inr None)
         else if start_module_iri = target_module_iri
         then Some ([], Inr (Some [start_module_iri]))
         else
           (case dijkstra graph target_module_iri
                   ((map_of (map (\<lambda>m. (m, \<infinity>)) modules))(start_module_iri \<mapsto> 0),
                    map_of (map (\<lambda>m. (m, None)) modules),
                    [(0, start_module_iri)]) {} of
              Inl e \<Rightarrow> Some ([], Inl e)
            | Inr (distances, previous) \<Rightarrow>
                (case distances target_module_iri of
                   None \<Rightarrow> Some ([], Inl (KeyError target_module_iri))
                 | Some dt \<Rightarrow>
                     if dt = \<infinity>
                     then Some ([NoPathFound start_module_iri target_module_iri], Inr None)
                     else (case walk_back previous (Some target_module_iri) [] of
                             None \<Rightarrow> None
                           | Some (Inl e) \<Rightarrow> Some ([], Inl e)
                           | Some (Inr path) \<Rightarrow>
                               Some ([PathFound dt (length path)], Inr (Some (rev path)))))))"

section \<open>Paths in the adjacency model\<close>

text \<open>
  The directed graph of an adjacency model: there is an edge from u to v when v is one of the
  connections of u. A path is a non-empty list of identifiers with an edge between
  neighbours; \<open>hops am s v n\<close> says that v is reached from s along n edges. A model is
  closed when every connection is itself a module of the model.
\<close>

definition edge :: "('m \<times> 'm option list) list \<Rightarrow> 'm \<Rightarrow> 'm \<Rightarrow> bool" where
  "edge am u v = (case map_of am u of None \<Rightarrow> False | Some connections \<Rightarrow> Some v \<in> set connections)"

fun is_path :: "('m \<times> 'm option list) list \<Rightarrow> 'm list \<Rightarrow> bool" where
  "is_path am [] = False"
| "is_path am [x] = True"
| "is_path am (x # y # rest) = (edge am x y \<and> is_path am (y # rest))"

definition path_between :: "('m \<times> 'm option list) list \<Rightarrow> 'm \<Rightarrow> 'm \<Rightarrow> 'm list \<Rightarrow> bool" where
  "path_between am s t p = (is_path am p \<and> hd p = s \<and> last p = t)"

definition closed :: "('m \<times> 'm option list) list \<Rightarrow> bool" where
  "closed am =
     list_all (\<lambda>(k, connections).
        list_all (\<lambda>c. case c of None \<Rightarrow> True | Some v \<Rightarrow> v \<in> fst ` set am) connections) am"

inductive hops :: "('m \<times> 'm option list) list \<Rightarrow> 'm \<Rightarrow> 'm \<Rightarrow> nat \<Rightarrow> bool"
  for am :: "('m \<times> 'm option list) list" and s :: 'm where
  start: "hops am s s 0"
| step: "hops am s u n \<Longrightarrow> edge am u v \<Longrightarrow> hops am s v (Suc n)"

text \<open>The inner loop in closed form, for a list of neighbours of weight 1.\<close>

definition relaxed :: "'m set \<Rightarrow> 'm set \<Rightarrow> nat \<Rightarrow> ('m \<rightharpoonup> enat) \<Rightarrow> 'm \<Rightarrow> bool" where
  "relaxed N visited d distances v =
     (v \<in> N \<and> v \<notin> visited \<and> (\<exists>x. distances v = Some x \<and> enat (Suc d) < x))"

text \<open>The invariant of the outer loop.\<close>

definition inv ::
  "('m \<times> 'm option list) list \<Rightarrow> 'm \<Rightarrow> ('m \<rightharpoonup> enat) \<Rightarrow> ('m \<rightharpoonup> 'm option)
     \<Rightarrow> (nat \<times> 'm) list \<Rightarrow> 'm set \<Rightarrow> bool" where
  "inv am s D P pq V =
     (dom D = fst ` set am \<and> dom P = fst ` set am \<and> V \<subseteq> fst ` set am
      \<and> D s = Some 0 \<and> P s = Some None
      \<and> (\<forall>v d. D v = Some (enat d) \<longrightarrow> hops am s v d)
      \<and> (\<forall>u v. u \<in> V \<and> edge am u v \<longrightarrow> (\<exists>du x. D u = Some (enat du) \<and> D v = Some x \<and> x \<le> enat (Suc du)))
      \<and> (\<forall>v d. v \<notin> V \<and> D v = Some (enat d) \<longrightarrow> (d, v) \<in> set pq)
      \<and> (\<forall>d v. (d, v) \<in> set pq \<longrightarrow> (\<exists>x. D v = Some x \<and> x \<le> enat d))
      \<and> (\<forall>u y du x. u \<in> V \<and> y \<notin> V \<and> D u = Some du \<and> D y = Some x \<longrightarrow> du \<le> x)
      \<and> (\<forall>u. u \<in> V \<longrightarrow> (\<exists>d. D u = Some (enat d)))
      \<and> (\<forall>v d. v \<noteq> s \<and> D v = Some (enat d) \<longrightarrow>
            (\<exists>u d'. u \<in> V \<and> P v = Some (Some u) \<and> edge am u v \<and> D u = Some (enat d') \<and> d = Suc d')))"

text \<open>What the search leaves behind for the target and for the walk back.\<close>

definition settled ::
  "('m \<times> 'm option list) list \<Rightarrow> 'm \<Rightarrow> 'm \<Rightarrow> ('m \<rightharpoonup> enat) \<Rightarrow> ('m \<rightharpoonup> 'm option) \<Rightarrow> bool" where
  "settled am s t D P =
     (D s = Some 0 \<and> P s = Some None
      \<and> (\<forall>v d. v \<noteq> s \<and> D v = Some (enat d) \<longrightarrow>
            (\<exists>u d'. P v = Some (Some u) \<and> edge am u v \<and> D u = Some (enat d') \<and> d = Suc d'))
      \<and> (\<exists>x. D t = Some x)
      \<and> (\<forall>n. D t = Some (enat n) \<longrightarrow> hops am s t n \<and> (\<forall>m. hops am s t m \<longrightarrow> n \<le> m))
      \<and> (D t = Some \<infinity> \<longrightarrow> (\<forall>m. \<not> hops am s t m)))"

section \<open>What a fact mentions\<close>

text \<open>A fact mentions a value that is its subject or its object.\<close>

definition mentions :: "node \<Rightarrow> triple \<Rightarrow> bool" where
  "mentions k t = (Str (subj t) = k \<or> obj t = k)"

section \<open>What a sync reports\<close>

text \<open>
  The parcels of a map whose position is their destination; the entries a call adds to the
  log file; and whether among some log entries there is the error "Failed to delete parcel k",
  which \<^verbatim>\<open>get_parcels\<close> writes when \<^verbatim>\<open>delete_parcel\<close> raised for k.
\<close>

definition arrived :: "(node \<times> parcel_info) list \<Rightarrow> node list" where
  "arrived ps =
     map fst (filter (\<lambda>(k, info). Some (Str (current_position info)) = destination info) ps)"

definition new_entries :: "flexconveyor \<Rightarrow> flexconveyor \<Rightarrow> (level \<times> event) list" where
  "new_entries st st' = drop (length (log_file st)) (log_file st')"

definition failure_logged :: "node \<Rightarrow> (level \<times> event) list \<Rightarrow> bool" where
  "failure_logged k ls = list_ex (\<lambda>x. case x of (ERROR, FailedToDelete k' e) \<Rightarrow> k' = k | _ \<Rightarrow> False) ls"

text \<open>
  The calls of \<^verbatim>\<open>delete_parcel\<close> that the third loop makes, each with what it gave: an
  error raised, or a return. \<open>sync_deletions\<close> are those of one call of \<^verbatim>\<open>get_parcels\<close>.
\<close>

fun deletions :: "node list \<Rightarrow> flexconveyor \<Rightarrow> (node \<times> (iri error + unit)) list" where
  "deletions [] st = []"
| "deletions (parcel_iri # rest) st =
     (parcel_iri, fst (delete_parcel (logging st INFO (DeletingParcel parcel_iri)) parcel_iri))
       # deletions rest (try_delete st parcel_iri)"

definition sync_deletions :: "flexconveyor \<Rightarrow> (node \<times> (iri error + unit)) list" where
  "sync_deletions st =
     (let st1 = st\<lparr>parcels := scan (db st) (map fst (adjacency_matrix st)) []\<rparr>
      in case find_arrived (parcels st1) st1 [] of
           (Inl e, st2) \<Rightarrow> []
         | (Inr parcels_to_delete, st2) \<Rightarrow> deletions parcels_to_delete st2)"

section \<open>What add\_parcel writes\<close>

text \<open>
  The parcel a module holds, and the destination of a parcel, as \<^verbatim>\<open>get_parcels\<close> reads them:
  the object of the first matching fact. The identifier \<^verbatim>\<open>add_parcel\<close> mints from the
  counter, and the five facts it inserts for it.
\<close>

definition occupant :: "store \<Rightarrow> iri \<Rightarrow> node option" where
  "occupant d m =
     (case triples_get d (Some (Str m)) (Some hasPossession) None of
        [] \<Rightarrow> None | t # _ \<Rightarrow> Some (obj t))"

definition destination_of :: "store \<Rightarrow> node \<Rightarrow> node option" where
  "destination_of d k =
     (case triples_get d (Some k) (Some hasDestination) None of [] \<Rightarrow> None | t # _ \<Rightarrow> Some (obj t))"

definition minted_iri :: "flexconveyor \<Rightarrow> iri" where
  "minted_iri st = ns @ ''parcel'' @ str_nat (parcel_counter st + 1)"

definition parcel_facts :: "iri \<Rightarrow> iri \<Rightarrow> iri \<Rightarrow> triple list" where
  "parcel_facts p dest start =
     [(p, rdf_type, Str Parcel),
      (p, rdf_type, Str NamedIndividual),
      (p, hasDestination, Str dest),
      (p, isPossessedBy, Str start),
      (start, hasPossession, Str p)]"

section \<open>The update convey sends for a module without a parcel\<close>

text \<open>
  When \<^verbatim>\<open>triples_get\<close> finds no parcel on the current module, \<^verbatim>\<open>convey\<close> continues with
  \<^verbatim>\<open>parcel_iri = ""\<close>; the request it then builds is this one.
\<close>

definition empty_update :: "iri \<Rightarrow> iri \<Rightarrow> request" where
  "empty_update a b =
     Update [(a, hasPossession, Str []), ([], isPossessedBy, Str a)]
            [(b, hasPossession, Str []), ([], isPossessedBy, Str b)] True"

section \<open>An example: the ring of four modules\<close>

text \<open>
  The store of the scenario of the specification: module1 \<rightarrow> module2 (east), module2 \<rightarrow>
  module3 (south), module3 \<rightarrow> module4 (west), module4 \<rightarrow> module1 (north), and one parcel on
  module1 with destination module3. The store fails no request. \<open>ring_system\<close> is the
  instance the constructor builds from it.
\<close>

definition ring_facts :: "triple list" where
  "ring_facts =
     [(''system1'', containsFlexConveyorModule, Str ''module1''),
      (''system1'', containsFlexConveyorModule, Str ''module2''),
      (''system1'', containsFlexConveyorModule, Str ''module3''),
      (''system1'', containsFlexConveyorModule, Str ''module4''),
      (''module1'', hasEastConnection, Str ''module2''),
      (''module2'', hasSouthConnection, Str ''module3''),
      (''module3'', hasWestConnection, Str ''module4''),
      (''module4'', hasNorthConnection, Str ''module1''),
      (''parcel1'', rdf_type, Str Parcel),
      (''parcel1'', hasDestination, Str ''module3''),
      (''parcel1'', isPossessedBy, Str ''module1''),
      (''module1'', hasPossession, Str ''parcel1'')]"

definition ring_store :: store where
  "ring_store = \<lparr>facts = ring_facts, denied = (\<lambda>r. False), journal = []\<rparr>"

definition ring_matrix :: "(iri \<times> iri option list) list" where
  "ring_matrix =
     [(''module1'', [None, Some ''module2'', None, None]),
      (''module2'', [None, None, Some ''module3'', None]),
      (''module3'', [None, None, None, Some ''module4'']),
      (''module4'', [Some ''module1'', None, None, None])]"

definition ring_system :: flexconveyor where
  "ring_system =
     \<lparr>system_iri = ''system1'', db = ring_store,
      parcels = [(Str ''parcel1'',
                  \<lparr>current_position = ''module1'', destination = Some (Str ''module3'')\<rparr>)],
      adjacency_matrix = ring_matrix, parcel_counter = 1,
      log_file = []\<rparr>"

text \<open>
  Two smaller adjacency models. In \<open>stub_matrix\<close> module1 has no connection, so module2
  cannot be reached from it. In \<open>dangling_matrix\<close> the north connection of module1 is
  module7, which is not a module of the model: \<^verbatim>\<open>build_adjacency_matrix\<close> stores whatever
  object the connection fact has, whether or not the system contains it.
\<close>

definition stub_matrix :: "(iri \<times> iri option list) list" where
  "stub_matrix =
     [(''module1'', [None, None, None, None]),
      (''module2'', [Some ''module1'', None, None, None])]"

definition dangling_matrix :: "(iri \<times> iri option list) list" where
  "dangling_matrix =
     [(''module1'', [Some ''module7'', Some ''module2'', None, None]),
      (''module2'', [None, None, None, None])]"

text \<open>
  Two instances with arrived parcels. The store of \<open>read_only_system\<close> fails every
  mutation, and a parcel sits on module3, its destination. The store of \<open>guarded_system\<close>
  fails the deletion of facts about parcel1 and no other request; parcel1 and parcel2 both
  sit on their destinations.
\<close>

definition read_only_store :: store where
  "read_only_store =
     \<lparr>facts = [(''parcel1'', hasDestination, Str ''module3''),
               (''parcel1'', isPossessedBy, Str ''module3''),
               (''module3'', hasPossession, Str ''parcel1'')],
      denied = (\<lambda>r. True), journal = []\<rparr>"

definition read_only_system :: flexconveyor where
  "read_only_system =
     \<lparr>system_iri = ''system1'', db = read_only_store, parcels = [],
      adjacency_matrix = ring_matrix, parcel_counter = 0, log_file = []\<rparr>"

definition guarded_store :: store where
  "guarded_store =
     \<lparr>facts = [(''parcel1'', hasDestination, Str ''module1''),
               (''parcel1'', isPossessedBy, Str ''module1''),
               (''module1'', hasPossession, Str ''parcel1''),
               (''parcel2'', hasDestination, Str ''module2''),
               (''parcel2'', isPossessedBy, Str ''module2''),
               (''module2'', hasPossession, Str ''parcel2'')],
      denied = (\<lambda>r. case r of Delete ts \<Rightarrow> list_ex (mentions (Str ''parcel1'')) ts | _ \<Rightarrow> False),
      journal = []\<rparr>"

definition guarded_system :: flexconveyor where
  "guarded_system =
     \<lparr>system_iri = ''system1'', db = guarded_store, parcels = [],
      adjacency_matrix = ring_matrix, parcel_counter = 0, log_file = []\<rparr>"

text \<open>
  The ring again, with one parcel on module1 whose destination is module3 and whose
  identifier is the \<^verbatim>\<open>parcel2\<close> of the namespace in which \<^verbatim>\<open>add_parcel\<close> mints. The
  store fails no request.
\<close>

definition parcel2_store :: store where
  "parcel2_store =
     \<lparr>facts = [(''system1'', containsFlexConveyorModule, Str ''module1''),
               (''system1'', containsFlexConveyorModule, Str ''module2''),
               (''system1'', containsFlexConveyorModule, Str ''module3''),
               (''system1'', containsFlexConveyorModule, Str ''module4''),
               (''module1'', hasEastConnection, Str ''module2''),
               (''module2'', hasSouthConnection, Str ''module3''),
               (''module3'', hasWestConnection, Str ''module4''),
               (''module4'', hasNorthConnection, Str ''module1''),
               (ns @ ''parcel2'', rdf_type, Str Parcel),
               (ns @ ''parcel2'', hasDestination, Str ''module3''),
               (ns @ ''parcel2'', isPossessedBy, Str ''module1''),
               (''module1'', hasPossession, Str (ns @ ''parcel2''))],
      denied = (\<lambda>r. False), journal = []\<rparr>"

text \<open>
  The ring store with two more facts, whose objects are numbers: the weight of parcel1, and
  the weight of a parcel7 about which the store holds nothing else.
\<close>

definition weighed_store :: store where
  "weighed_store =
     \<lparr>facts = ring_facts @ [(''parcel1'', ns @ ''hasWeight'', NonStr ''5''),
                             (''parcel7'', ns @ ''hasWeight'', NonStr ''2'')],
      denied = (\<lambda>r. False), journal = []\<rparr>"

definition weighed_system :: flexconveyor where
  "weighed_system =
     \<lparr>system_iri = ''system1'', db = weighed_store,
      parcels = [(Str ''parcel1'',
                  \<lparr>current_position = ''module1'', destination = Some (Str ''module3'')\<rparr>)],
      adjacency_matrix = ring_matrix, parcel_counter = 1,
      log_file = []\<rparr>"

text \<open>The store from which the constructor builds \<open>dangling_matrix\<close>.\<close>

definition dangling_store :: store where
  "dangling_store =
     \<lparr>facts = [(''system1'', containsFlexConveyorModule, Str ''module1''),
               (''system1'', containsFlexConveyorModule, Str ''module2''),
               (''module1'', hasNorthConnection, Str ''module7''),
               (''module1'', hasEastConnection, Str ''module2'')],
      denied = (\<lambda>r. False), journal = []\<rparr>"

section \<open>Basic facts\<close>

lemma db_logging [simp]: "db (logging st l e) = db st"
  by (simp add: logging_def)

lemma adjacency_matrix_logging [simp]: "adjacency_matrix (logging st l e) = adjacency_matrix st"
  by (simp add: logging_def)

lemma parcels_logging [simp]: "parcels (logging st l e) = parcels st"
  by (simp add: logging_def)

lemma parcel_counter_logging [simp]: "parcel_counter (logging st l e) = parcel_counter st"
  by (simp add: logging_def)

lemma log_file_logging [simp]: "log_file (logging st l e) = log_file st @ [(l, e)]"
  by (simp add: logging_def)

lemma init_ring_system:
  "map_sum id (\<lambda>st. (adjacency_matrix st, parcels st, parcel_counter st, facts (db st)))
     (init ''system1'' ring_store)
   = Inr (adjacency_matrix ring_system, parcels ring_system, parcel_counter ring_system,
          facts (db ring_system))"
  by code_simp


section \<open>convey: moves the model does not allow\<close>

lemma first_match_None: "first_match connections b i = None \<longleftrightarrow> Some b \<notin> set connections"
  by (induction connections arbitrary: i) auto

text \<open>
  Claim C10. For every module identifier A that is not a key of the adjacency model and every
  B, \<^verbatim>\<open>convey(A, B)\<close> raises the \<^verbatim>\<open>ValueError\<close> "Module A not found in adjacency matrix".
  It does so before a direction is resolved and before anything is sent to the store: the
  store (facts and journal of requests) is the one before the call, and the log holds the two
  entries written on entry and the error, in that order, and no entry of a direction.
\<close>

theorem convey_unknown_module:
  assumes "map_of (adjacency_matrix st) A = None"
  shows "fst (convey st A B) = Inl (ValueError (ModuleNotFound A))
       \<and> db (snd (convey st A B)) = db st
       \<and> (\<exists>info. log_file (snd (convey st A B)) =
            log_file st @ [(INFO, ConveyingFrom A B), (INFO, ParcelInfo info), (ERROR, ModuleNotInMatrix A)])"
  using assms by (simp add: convey_def Let_def)

theorem convey_unknown_module_witness:
  "map_of (adjacency_matrix ring_system) ''module9'' = None
   \<and> fst (convey ring_system ''module9'' ''module2'') = Inl (ValueError (ModuleNotFound ''module9''))
   \<and> db (snd (convey ring_system ''module9'' ''module2'')) = db ring_system"
proof -
  have h: "map_of (adjacency_matrix ring_system) ''module9'' = None"
    by (simp add: ring_system_def ring_matrix_def)
  from convey_unknown_module[OF h, of "''module2''"] h show ?thesis by blast
qed

text \<open>
  Claim C4. For every module A of the adjacency model and every B that is none of the four
  connections of A, \<^verbatim>\<open>convey(A, B)\<close> raises the \<^verbatim>\<open>ValueError\<close> "No valid direction from A
  to B", and the store is unchanged: no fact differs and no request has been sent.
\<close>

theorem convey_no_edge:
  assumes "map_of (adjacency_matrix st) A = Some connections"
    and "Some B \<notin> set connections"
  shows "fst (convey st A B) = Inl (ValueError (NoValidDirection A B))
       \<and> db (snd (convey st A B)) = db st"
  using assms by (simp add: convey_def Let_def first_match_None[THEN iffD2])

theorem convey_no_edge_witness:
  "map_of (adjacency_matrix ring_system) ''module1'' = Some [None, Some ''module2'', None, None]
   \<and> Some ''module3'' \<notin> set [None, Some ''module2'', None, None]
   \<and> fst (convey ring_system ''module1'' ''module3'')
       = Inl (ValueError (NoValidDirection ''module1'' ''module3''))
   \<and> db (snd (convey ring_system ''module1'' ''module3'')) = db ring_system"
proof -
  have h1: "map_of (adjacency_matrix ring_system) ''module1'' = Some [None, Some ''module2'', None, None]"
    by (simp add: ring_system_def ring_matrix_def)
  have h2: "Some ''module3'' \<notin> set [None, Some ''module2'', None, None]"
    by simp
  from convey_no_edge[OF h1 h2] h1 h2 show ?thesis by blast
qed

section \<open>delete\_parcel\<close>

text \<open>The batch \<^verbatim>\<open>delete_parcel\<close> builds for a parcel identifier.\<close>

lemma batch_set:
  "set (filter str_triple (triples_get d (Some (Str p)) None None)
        @ filter str_triple (triples_get d None None (Some (Str p))))
     = {t \<in> set (facts d). mentions (Str p) t \<and> str_triple t}"
  by (auto simp: triples_get_def bound_def mentions_def subj_def obj_def)

lemma batch_Nil:
  "(filter str_triple (triples_get d (Some (Str p)) None None)
      @ filter str_triple (triples_get d None None (Some (Str p))) = [])
     = (\<not> list_ex (\<lambda>t. mentions (Str p) t \<and> str_triple t) (facts d))"
proof -
  let ?b = "filter str_triple (triples_get d (Some (Str p)) None None)
      @ filter str_triple (triples_get d None None (Some (Str p)))"
  have "(?b = []) = (set ?b = {})" by (simp only: set_empty)
  also have "\<dots> = ({t \<in> set (facts d). mentions (Str p) t \<and> str_triple t} = {})"
    by (simp only: batch_set)
  also have "\<dots> = (\<not> list_ex (\<lambda>t. mentions (Str p) t \<and> str_triple t) (facts d))"
    by (auto simp: list_ex_iff)
  finally show ?thesis .
qed

lemma str_triple_object: "obj t = Str p \<Longrightarrow> str_triple t"
  by (cases t) (simp add: str_triple_def obj_def)

text \<open>
  Claim C7, as the program has it. For every parcel identifier p, with \<open>batch\<close> the facts
  made of three strings that mention p (first those with subject p, then those with object
  p):

  \<^item> if the batch is empty, \<^verbatim>\<open>delete_parcel(p)\<close> raises the \<^verbatim>\<open>ValueError\<close> "Parcel p not
    found in database" and leaves the store as it is, although facts with an object that is
    not a string may mention p;
  \<^item> otherwise it sends the store one delete request, for the batch. When the store carries it
    out, the call returns, exactly the facts of the batch are gone, a following
    \<^verbatim>\<open>triples_get\<close> for p as object returns nothing, and one for p as subject returns the
    facts that were skipped: those whose object is not a string;
  \<^item> when the store fails the request, the store's error is raised and the facts are
    unchanged.
\<close>

theorem delete_parcel_cases:
  "(\<not> list_ex (\<lambda>t. mentions (Str p) t \<and> str_triple t) (facts (db st)) \<longrightarrow>
      fst (delete_parcel st (Str p)) = Inl (ValueError (ParcelNotFound (Str p)))
      \<and> db (snd (delete_parcel st (Str p))) = db st)
   \<and> (list_ex (\<lambda>t. mentions (Str p) t \<and> str_triple t) (facts (db st))
        \<and> \<not> denied (db st)
              (Delete (filter str_triple (triples_get (db st) (Some (Str p)) None None)
                       @ filter str_triple (triples_get (db st) None None (Some (Str p)))))
      \<longrightarrow>
      fst (delete_parcel st (Str p)) = Inr ()
      \<and> journal (db (snd (delete_parcel st (Str p)))) = journal (db st) @
            [Delete (filter str_triple (triples_get (db st) (Some (Str p)) None None)
                     @ filter str_triple (triples_get (db st) None None (Some (Str p))))]
      \<and> facts (db (snd (delete_parcel st (Str p))))
          = filter (\<lambda>t. \<not> (mentions (Str p) t \<and> str_triple t)) (facts (db st))
      \<and> triples_get (db (snd (delete_parcel st (Str p)))) (Some (Str p)) None None
          = filter (\<lambda>t. \<not> str_triple t) (triples_get (db st) (Some (Str p)) None None)
      \<and> triples_get (db (snd (delete_parcel st (Str p)))) None None (Some (Str p)) = [])
   \<and> (list_ex (\<lambda>t. mentions (Str p) t \<and> str_triple t) (facts (db st))
        \<and> denied (db st)
              (Delete (filter str_triple (triples_get (db st) (Some (Str p)) None None)
                       @ filter str_triple (triples_get (db st) None None (Some (Str p)))))
      \<longrightarrow>
      fst (delete_parcel st (Str p)) = Inl StoreError
      \<and> journal (db (snd (delete_parcel st (Str p)))) = journal (db st) @
            [Delete (filter str_triple (triples_get (db st) (Some (Str p)) None None)
                     @ filter str_triple (triples_get (db st) None None (Some (Str p))))]
      \<and> facts (db (snd (delete_parcel st (Str p)))) = facts (db st))"
proof (intro conjI impI)
  assume n: "\<not> list_ex (\<lambda>t. mentions (Str p) t \<and> str_triple t) (facts (db st))"
  have e: "filter str_triple (triples_get (db st) (Some (Str p)) None None)
             @ filter str_triple (triples_get (db st) None None (Some (Str p))) = []"
    unfolding batch_Nil by (rule n)
  show "fst (delete_parcel st (Str p)) = Inl (ValueError (ParcelNotFound (Str p)))"
    using e by (simp add: delete_parcel_def Let_def)
  show "db (snd (delete_parcel st (Str p))) = db st"
    using e by (simp add: delete_parcel_def Let_def)
next
  let ?batch = "filter str_triple (triples_get (db st) (Some (Str p)) None None)
                  @ filter str_triple (triples_get (db st) None None (Some (Str p)))"
  assume a: "list_ex (\<lambda>t. mentions (Str p) t \<and> str_triple t) (facts (db st))
               \<and> \<not> denied (db st) (Delete ?batch)"
  then have ne: "?batch \<noteq> []" unfolding batch_Nil by simp
  have r: "delete_parcel st (Str p) =
    (Inr (), st\<lparr>db := (received (db st) (Delete ?batch))
       \<lparr>facts := filter (\<lambda>t. t \<notin> set ?batch) (facts (db st))\<rparr>\<rparr>)"
    using a ne by (simp add: delete_parcel_def Let_def triples_delete_def)
  have f: "filter (\<lambda>t. t \<notin> set ?batch) (facts (db st))
             = filter (\<lambda>t. \<not> (mentions (Str p) t \<and> str_triple t)) (facts (db st))"
  proof (rule filter_cong[OF refl])
    fix t assume "t \<in> set (facts (db st))"
    then show "(t \<notin> set ?batch) = (\<not> (mentions (Str p) t \<and> str_triple t))"
      unfolding batch_set by simp
  qed
  show "fst (delete_parcel st (Str p)) = Inr ()" by (simp add: r)
  show "journal (db (snd (delete_parcel st (Str p)))) = journal (db st) @ [Delete ?batch]"
    by (simp add: r received_def)
  show fs: "facts (db (snd (delete_parcel st (Str p))))
              = filter (\<lambda>t. \<not> (mentions (Str p) t \<and> str_triple t)) (facts (db st))"
    unfolding r using f by (simp del: set_append)
  show "triples_get (db (snd (delete_parcel st (Str p)))) (Some (Str p)) None None
          = filter (\<lambda>t. \<not> str_triple t) (triples_get (db st) (Some (Str p)) None None)"
    unfolding triples_get_def fs
    by (auto simp: bound_def mentions_def subj_def intro!: filter_cong)
  show "triples_get (db (snd (delete_parcel st (Str p)))) None None (Some (Str p)) = []"
    unfolding triples_get_def fs
    by (auto simp: filter_empty_conv bound_def mentions_def obj_def str_triple_def)
next
  let ?batch = "filter str_triple (triples_get (db st) (Some (Str p)) None None)
                  @ filter str_triple (triples_get (db st) None None (Some (Str p)))"
  assume a: "list_ex (\<lambda>t. mentions (Str p) t \<and> str_triple t) (facts (db st))
               \<and> denied (db st) (Delete ?batch)"
  then have ne: "?batch \<noteq> []" unfolding batch_Nil by simp
  have r: "delete_parcel st (Str p) = (Inl StoreError, st\<lparr>db := received (db st) (Delete ?batch)\<rparr>)"
    using a ne by (simp add: delete_parcel_def Let_def triples_delete_def)
  show "fst (delete_parcel st (Str p)) = Inl StoreError" by (simp add: r)
  show "journal (db (snd (delete_parcel st (Str p)))) = journal (db st) @ [Delete ?batch]"
    by (simp add: r received_def)
  show "facts (db (snd (delete_parcel st (Str p)))) = facts (db st)"
    by (simp add: r received_def)
qed

theorem delete_parcel_cases_witness:
  "\<not> list_ex (\<lambda>t. mentions (Str ''parcel9'') t \<and> str_triple t) (facts (db weighed_system))
   \<and> fst (delete_parcel weighed_system (Str ''parcel9''))
       = Inl (ValueError (ParcelNotFound (Str ''parcel9'')))
   \<and> db (snd (delete_parcel weighed_system (Str ''parcel9''))) = db weighed_system
   \<and> list_ex (\<lambda>t. mentions (Str ''parcel1'') t \<and> str_triple t) (facts (db weighed_system))
   \<and> \<not> denied (db weighed_system)
         (Delete (filter str_triple (triples_get (db weighed_system) (Some (Str ''parcel1'')) None None)
                  @ filter str_triple (triples_get (db weighed_system) None None (Some (Str ''parcel1'')))))
   \<and> fst (delete_parcel weighed_system (Str ''parcel1'')) = Inr ()
   \<and> triples_get (db (snd (delete_parcel weighed_system (Str ''parcel1''))))
         (Some (Str ''parcel1'')) None None
       = [(''parcel1'', ns @ ''hasWeight'', NonStr ''5'')]
   \<and> triples_get (db (snd (delete_parcel weighed_system (Str ''parcel1''))))
         None None (Some (Str ''parcel1'')) = []
   \<and> list_ex (\<lambda>t. mentions (Str ''parcel1'') t \<and> str_triple t) (facts (db read_only_system))
   \<and> denied (db read_only_system)
         (Delete (filter str_triple (triples_get (db read_only_system) (Some (Str ''parcel1'')) None None)
                  @ filter str_triple (triples_get (db read_only_system) None None (Some (Str ''parcel1'')))))
   \<and> fst (delete_parcel read_only_system (Str ''parcel1'')) = Inl StoreError
   \<and> facts (db (snd (delete_parcel read_only_system (Str ''parcel1'')))) = facts (db read_only_system)"
proof -
  have h1: "\<not> list_ex (\<lambda>t. mentions (Str ''parcel9'') t \<and> str_triple t) (facts (db weighed_system))"
    by code_simp
  have h2: "list_ex (\<lambda>t. mentions (Str ''parcel1'') t \<and> str_triple t) (facts (db weighed_system))"
    by code_simp
  have h3: "\<not> denied (db weighed_system)
         (Delete (filter str_triple (triples_get (db weighed_system) (Some (Str ''parcel1'')) None None)
                  @ filter str_triple (triples_get (db weighed_system) None None (Some (Str ''parcel1'')))))"
    by (simp add: weighed_system_def weighed_store_def)
  have h4: "list_ex (\<lambda>t. mentions (Str ''parcel1'') t \<and> str_triple t) (facts (db read_only_system))"
    by code_simp
  have h5: "denied (db read_only_system)
         (Delete (filter str_triple (triples_get (db read_only_system) (Some (Str ''parcel1'')) None None)
                  @ filter str_triple (triples_get (db read_only_system) None None (Some (Str ''parcel1'')))))"
    by (simp add: read_only_system_def read_only_store_def)
  have h6: "filter (\<lambda>t. \<not> str_triple t)
              (triples_get (db weighed_system) (Some (Str ''parcel1'')) None None)
            = [(''parcel1'', ns @ ''hasWeight'', NonStr ''5'')]"
    by code_simp
  note a = delete_parcel_cases[of "''parcel9''" weighed_system, THEN conjunct1, THEN mp, OF h1]
  note b = delete_parcel_cases[of "''parcel1''" weighed_system, THEN conjunct2, THEN conjunct1,
             THEN mp, OF conjI[OF h2 h3]]
  note c = delete_parcel_cases[of "''parcel1''" read_only_system, THEN conjunct2, THEN conjunct2,
             THEN mp, OF conjI[OF h4 h5]]
  have b4: "triples_get (db (snd (delete_parcel weighed_system (Str ''parcel1''))))
         (Some (Str ''parcel1'')) None None
       = [(''parcel1'', ns @ ''hasWeight'', NonStr ''5'')]"
    using b[THEN conjunct2, THEN conjunct2, THEN conjunct2, THEN conjunct1] h6 by (rule trans)
  show ?thesis
    by (intro conjI h1 h2 h3 h4 h5 b4 a[THEN conjunct1] a[THEN conjunct2] b[THEN conjunct1]
          b[THEN conjunct2, THEN conjunct2, THEN conjunct2, THEN conjunct2]
          c[THEN conjunct1] c[THEN conjunct2, THEN conjunct2])
qed

text \<open>
  Claim C7 as stated fails, in three ways. In \<open>weighed_system\<close> the facts about parcel1
  include its weight, a number: \<^verbatim>\<open>delete_parcel(parcel1)\<close> returns, and a read for parcel1
  as subject still finds that fact. The store mentions parcel7, in its weight only: the call
  for parcel7 raises "not found". The store of \<open>read_only_system\<close> mentions parcel1 and
  refuses the delete: the call raises the store's error and every fact about parcel1 is still
  there.
\<close>

theorem delete_parcel_cases_counterexample:
  "list_ex (mentions (Str ''parcel1'')) (facts (db weighed_system))
   \<and> fst (delete_parcel weighed_system (Str ''parcel1'')) = Inr ()
   \<and> triples_get (db (snd (delete_parcel weighed_system (Str ''parcel1''))))
         (Some (Str ''parcel1'')) None None
       = [(''parcel1'', ns @ ''hasWeight'', NonStr ''5'')]
   \<and> list_ex (mentions (Str ''parcel7'')) (facts (db weighed_system))
   \<and> fst (delete_parcel weighed_system (Str ''parcel7''))
       = Inl (ValueError (ParcelNotFound (Str ''parcel7'')))
   \<and> list_ex (mentions (Str ''parcel1'')) (facts (db read_only_system))
   \<and> fst (delete_parcel read_only_system (Str ''parcel1'')) = Inl StoreError
   \<and> triples_get (db (snd (delete_parcel read_only_system (Str ''parcel1''))))
         (Some (Str ''parcel1'')) None None
       = [(''parcel1'', hasDestination, Str ''module3''),
          (''parcel1'', isPossessedBy, Str ''module3'')]
   \<and> triples_get (db (snd (delete_parcel read_only_system (Str ''parcel1''))))
         None None (Some (Str ''parcel1''))
       = [(''module3'', hasPossession, Str ''parcel1'')]"
  by code_simp

section \<open>get\_parcels returns\<close>

text \<open>
  The second loop raises for an arrived parcel whose key is not a string. The first loop
  makes no such entry: a key has a destination only when a fact has it as subject, and
  subjects are strings.
\<close>

lemma set_update: "set (AList.update k v ps) \<subseteq> insert (k, v) (set ps)"
  by (induction ps) auto

lemma destination_str:
  assumes "triples_get d (Some k) pred ob = t # ts"
  shows "is_str k"
proof -
  have "t \<in> set (triples_get d (Some k) pred ob)" using assms by simp
  then show ?thesis by (auto simp: triples_get_def bound_def)
qed

lemma scan_str_keys:
  assumes "\<And>k info. (k, info) \<in> set ps \<Longrightarrow> destination info \<noteq> None \<Longrightarrow> is_str k"
    and "(k, info) \<in> set (scan d ms ps)" and "destination info \<noteq> None"
  shows "is_str k"
  using assms
proof (induction ms arbitrary: ps)
  case Nil
  then show ?case by simp
next
  case (Cons m ms)
  show ?case
  proof (cases "triples_get d (Some (Str m)) (Some hasPossession) None")
    case Nil
    with Cons.prems(2) have "(k, info) \<in> set (scan d ms ps)" by simp
    from Cons.IH[OF Cons.prems(1) this Cons.prems(3)] show ?thesis .
  next
    case (Cons t ts)
    let ?dest = "case triples_get d (Some (obj t)) (Some hasDestination) None of
                   [] \<Rightarrow> None | t' # _ \<Rightarrow> Some (obj t')"
    let ?ps = "AList.update (obj t) \<lparr>current_position = m, destination = ?dest\<rparr> ps"
    from Cons Cons.prems(2) have in_scan: "(k, info) \<in> set (scan d ms ?ps)"
      by (simp add: Let_def)
    have "is_str k'" if "(k', info') \<in> set ?ps" "destination info' \<noteq> None" for k' info'
    proof (cases "(k', info') \<in> set ps")
      case True
      from Cons.prems(1)[OF True that(2)] show ?thesis .
    next
      case False
      with that(1) set_update[of "obj t" _ ps]
      have e: "k' = obj t" "info' = \<lparr>current_position = m, destination = ?dest\<rparr>" by auto
      with that(2) obtain t' ts' where
        "triples_get d (Some (obj t)) (Some hasDestination) None = t' # ts'"
        by (cases "triples_get d (Some (obj t)) (Some hasDestination) None") auto
      from destination_str[OF this] e(1) show ?thesis by simp
    qed
    from Cons.IH[OF this in_scan Cons.prems(3)] show ?thesis .
  qed
qed

lemma find_arrived_eq:
  assumes "\<And>k info. (k, info) \<in> set ps \<Longrightarrow> destination info \<noteq> None \<Longrightarrow> is_str k"
  shows "\<exists>ls. log_file (snd (find_arrived ps st acc)) = log_file st @ ls
        \<and> (\<forall>x \<in> set ls. \<exists>a b. x = (INFO, ReachedDestination a b))
        \<and> parcels (snd (find_arrived ps st acc)) = parcels st
        \<and> db (snd (find_arrived ps st acc)) = db st
        \<and> fst (find_arrived ps st acc) = Inr (acc @ arrived ps)"
  using assms
proof (induction ps st acc rule: find_arrived.induct)
  case (1 st acc)
  then show ?case by (simp add: arrived_def)
next
  case (2 parcel_iri info rest st acc)
  have rest: "is_str k" if "(k, i) \<in> set rest" "destination i \<noteq> None" for k i
    using 2(3)[of k i] that by simp
  show ?case
  proof (cases "Some (Str (current_position info)) = destination info")
    case True
    have "destination info \<noteq> None" using True[symmetric] by simp
    with 2(3)[of parcel_iri info] have "is_str parcel_iri" by simp
    then obtain p where p: "parcel_iri = Str p" by (cases parcel_iri) auto
    let ?e = "(INFO, ReachedDestination (shorten_iri p) (shorten_iri (current_position info)))"
    let ?r = "find_arrived rest (logging st INFO
          (ReachedDestination (shorten_iri p) (shorten_iri (current_position info))))
          (acc @ [parcel_iri])"
    have "\<exists>ls. log_file (snd ?r) = log_file (logging st INFO
              (ReachedDestination (shorten_iri p) (shorten_iri (current_position info)))) @ ls
        \<and> (\<forall>x \<in> set ls. \<exists>a b. x = (INFO, ReachedDestination a b))
        \<and> parcels (snd ?r) = parcels (logging st INFO
              (ReachedDestination (shorten_iri p) (shorten_iri (current_position info))))
        \<and> db (snd ?r) = db (logging st INFO
              (ReachedDestination (shorten_iri p) (shorten_iri (current_position info))))
        \<and> fst ?r = Inr ((acc @ [parcel_iri]) @ arrived rest)"
      by (rule 2(1)[OF True p]) (rule rest)
    then obtain ls where
      "log_file (snd ?r) = log_file st @ ?e # ls"
      and "\<forall>x \<in> set ls. \<exists>a b. x = (INFO, ReachedDestination a b)"
      and "parcels (snd ?r) = parcels st"
      and "db (snd ?r) = db st"
      and "fst ?r = Inr ((acc @ [parcel_iri]) @ arrived rest)"
      by auto
    then show ?thesis using True p
      by (intro exI[of _ "?e # ls"]) (auto simp: arrived_def)
  next
    case False
    have "\<exists>ls. log_file (snd (find_arrived rest st acc)) = log_file st @ ls
        \<and> (\<forall>x \<in> set ls. \<exists>a b. x = (INFO, ReachedDestination a b))
        \<and> parcels (snd (find_arrived rest st acc)) = parcels st
        \<and> db (snd (find_arrived rest st acc)) = db st
        \<and> fst (find_arrived rest st acc) = Inr (acc @ arrived rest)"
      by (rule 2(2)[OF False]) (rule rest)
    then show ?thesis using False by (auto simp: arrived_def)
  qed
qed

lemma failure_logged_iff: "failure_logged k ls \<longleftrightarrow> (\<exists>e. (ERROR, FailedToDelete k e) \<in> set ls)"
proof
  assume "failure_logged k ls"
  then obtain x where x: "x \<in> set ls" "case x of (ERROR, FailedToDelete k' e) \<Rightarrow> k' = k | _ \<Rightarrow> False"
    by (auto simp: failure_logged_def list_ex_iff)
  then obtain e where "x = (ERROR, FailedToDelete k e)"
    by (auto split: prod.splits level.splits event.splits)
  with x show "\<exists>e. (ERROR, FailedToDelete k e) \<in> set ls" by auto
next
  assume "\<exists>e. (ERROR, FailedToDelete k e) \<in> set ls"
  then show "failure_logged k ls"
    by (auto simp: failure_logged_def list_ex_iff intro!: bexI)
qed

lemma failure_logged_append [simp]:
  "failure_logged k (xs @ ys) \<longleftrightarrow> failure_logged k xs \<or> failure_logged k ys"
  by (simp add: failure_logged_def)

text \<open>What \<^verbatim>\<open>get_parcels\<close> does, in terms of the three loops.\<close>

lemma get_parcels_unfold:
  "\<exists>st2 l0.
     get_parcels st = (Inr (), delete_arrived (arrived (parcels st2)) st2)
     \<and> sync_deletions st = deletions (arrived (parcels st2)) st2
     \<and> parcels st2 = scan (db st) (map fst (adjacency_matrix st)) []
     \<and> db st2 = db st
     \<and> log_file st2 = log_file st @ l0
     \<and> (\<forall>k. \<not> failure_logged k l0)"
proof -
  let ?st1 = "st\<lparr>parcels := scan (db st) (map fst (adjacency_matrix st)) []\<rparr>"
  obtain r st2 where f: "find_arrived (parcels ?st1) ?st1 [] = (r, st2)"
    by (cases "find_arrived (parcels ?st1) ?st1 []")
  have keys: "is_str k" if "(k, info) \<in> set (parcels ?st1)" "destination info \<noteq> None" for k info
    using scan_str_keys[of "[]" k info "db st" "map fst (adjacency_matrix st)"] that by simp
  have "\<exists>ls. log_file (snd (find_arrived (parcels ?st1) ?st1 [])) = log_file ?st1 @ ls
        \<and> (\<forall>x \<in> set ls. \<exists>a b. x = (INFO, ReachedDestination a b))
        \<and> parcels (snd (find_arrived (parcels ?st1) ?st1 [])) = parcels ?st1
        \<and> db (snd (find_arrived (parcels ?st1) ?st1 [])) = db ?st1
        \<and> fst (find_arrived (parcels ?st1) ?st1 []) = Inr ([] @ arrived (parcels ?st1))"
    by (rule find_arrived_eq) (rule keys)
  with f obtain l0 where
    l0: "log_file st2 = log_file ?st1 @ l0"
    and sh: "\<forall>x \<in> set l0. \<exists>a b. x = (INFO, ReachedDestination a b)"
    and p2: "parcels st2 = parcels ?st1"
    and d2: "db st2 = db ?st1"
    and a: "r = Inr (arrived (parcels ?st1))"
    by auto
  have nf: "\<not> failure_logged k l0" for k
    using sh by (auto simp: failure_logged_iff)
  have g: "get_parcels st = (Inr (), delete_arrived (arrived (parcels st2)) st2)"
    using f a p2 by (simp add: get_parcels_def Let_def)
  have sd: "sync_deletions st = deletions (arrived (parcels st2)) st2"
    using f a p2 by (simp add: sync_deletions_def Let_def)
  have p: "parcels st2 = scan (db st) (map fst (adjacency_matrix st)) []" using p2 by simp
  have d: "db st2 = db st" using d2 by simp
  have l: "log_file st2 = log_file st @ l0" using l0 by simp
  show ?thesis
    by (intro exI[of _ st2] exI[of _ l0] conjI allI g sd p d l nf)
qed

lemma get_parcels_returns: "fst (get_parcels st) = Inr ()"
  using get_parcels_unfold[of st] by auto

section \<open>The adjacency model is never reassigned\<close>

lemma adjacency_matrix_delete_parcel:
  "adjacency_matrix (snd (delete_parcel st p)) = adjacency_matrix st"
  by (simp add: delete_parcel_def Let_def split: prod.splits)

lemma adjacency_matrix_find_arrived:
  "adjacency_matrix (snd (find_arrived ps st acc)) = adjacency_matrix st"
  by (induction ps st acc rule: find_arrived.induct) (simp_all split: node.split)

lemma adjacency_matrix_try_delete:
  "adjacency_matrix (try_delete st p) = adjacency_matrix st"
proof -
  obtain r st' where d: "delete_parcel (logging st INFO (DeletingParcel p)) p = (r, st')"
    by (cases "delete_parcel (logging st INFO (DeletingParcel p)) p")
  have a: "adjacency_matrix st' = adjacency_matrix st"
    using adjacency_matrix_delete_parcel[of "logging st INFO (DeletingParcel p)" p] d by simp
  show ?thesis
    using d a by (cases r; cases p) (auto simp: try_delete_def)
qed

lemma adjacency_matrix_delete_arrived:
  "adjacency_matrix (delete_arrived ps st) = adjacency_matrix st"
  by (induction ps arbitrary: st) (simp_all add: adjacency_matrix_try_delete)

lemma adjacency_matrix_get_parcels:
  "adjacency_matrix (snd (get_parcels st)) = adjacency_matrix st"
proof -
  let ?st1 = "st\<lparr>parcels := scan (db st) (map fst (adjacency_matrix st)) []\<rparr>"
  obtain r st2 where f: "find_arrived (parcels ?st1) ?st1 [] = (r, st2)"
    by (cases "find_arrived (parcels ?st1) ?st1 []")
  have "adjacency_matrix st2 = adjacency_matrix ?st1"
    using adjacency_matrix_find_arrived[of "parcels ?st1" ?st1 "[]"] f by simp
  then show ?thesis
    using f by (cases r) (simp_all add: get_parcels_def Let_def adjacency_matrix_delete_arrived)
qed

lemma adjacency_matrix_convey:
  "adjacency_matrix (snd (convey st a b)) = adjacency_matrix st"
  by (simp add: convey_def Let_def split: option.split prod.split sum.split node.split)

lemma adjacency_matrix_add_parcel:
  "adjacency_matrix (snd (add_parcel st d s)) = adjacency_matrix st"
proof -
  have g: "adjacency_matrix st' = adjacency_matrix s0" if "get_parcels s0 = (r', st')" for s0 r' st'
    using adjacency_matrix_get_parcels[of s0] that by simp
  show ?thesis
    by (auto simp: add_parcel_def Let_def split: prod.split sum.split dest!: g)
qed

lemma init_returns:
  "\<exists>st2. get_parcels (build_adjacency_matrix
             \<lparr>system_iri = system, db = d, parcels = [], adjacency_matrix = [],
              parcel_counter = 0, log_file = []\<rparr>) = (Inr (), st2)
         \<and> init system d =
             Inr (logging (st2\<lparr>parcel_counter := length (parcels st2)\<rparr>) INFO (Initialized system))"
proof -
  let ?st1 = "build_adjacency_matrix
             \<lparr>system_iri = system, db = d, parcels = [], adjacency_matrix = [],
              parcel_counter = 0, log_file = []\<rparr>"
  obtain r st2 where g: "get_parcels ?st1 = (r, st2)" by (rule prod.exhaust)
  with get_parcels_returns[of ?st1] have r: "r = Inr ()" by simp
  show ?thesis
    by (rule exI[of _ st2]) (simp add: init_def Let_def g r)
qed

text \<open>
  Claim C9. The adjacency model is built once, by the constructor, from the store's
  containment and connection facts; \<^verbatim>\<open>get_parcels\<close>, \<^verbatim>\<open>convey\<close>, \<^verbatim>\<open>add_parcel\<close> and
  \<^verbatim>\<open>delete_parcel\<close> leave it as it is, whether they return or raise. (\<^verbatim>\<open>find_path\<close> only
  reads it: it takes the model as an argument and returns no state.)
\<close>

theorem adjacency_matrix_immutable:
  "(\<exists>st0. init system d = Inr st0
      \<and> adjacency_matrix st0 =
          fold (\<lambda>module_iri dict. AList.update module_iri (connections_list d module_iri) dict)
            (query d system containsFlexConveyorModule) [])
   \<and> adjacency_matrix (snd (get_parcels st)) = adjacency_matrix st
   \<and> adjacency_matrix (snd (convey st current_module next_module_iri)) = adjacency_matrix st
   \<and> adjacency_matrix (snd (add_parcel st destination_iri start_module_iri)) = adjacency_matrix st
   \<and> adjacency_matrix (snd (delete_parcel st parcel_iri)) = adjacency_matrix st"
proof -
  let ?st1 = "build_adjacency_matrix
             \<lparr>system_iri = system, db = d, parcels = [], adjacency_matrix = [],
              parcel_counter = 0, log_file = []\<rparr>"
  from init_returns[of system d] obtain st2 where
    g: "get_parcels ?st1 = (Inr (), st2)"
    and i: "init system d =
             Inr (logging (st2\<lparr>parcel_counter := length (parcels st2)\<rparr>) INFO (Initialized system))"
    by blast
  have "adjacency_matrix st2 = adjacency_matrix ?st1"
    using adjacency_matrix_get_parcels[of ?st1] g by simp
  then have "adjacency_matrix (logging (st2\<lparr>parcel_counter := length (parcels st2)\<rparr>) INFO (Initialized system))
      = fold (\<lambda>module_iri dict. AList.update module_iri (connections_list d module_iri) dict)
            (query d system containsFlexConveyorModule) []"
    by (simp add: build_adjacency_matrix_def Let_def)
  with i have "\<exists>st0. init system d = Inr st0
      \<and> adjacency_matrix st0 =
          fold (\<lambda>module_iri dict. AList.update module_iri (connections_list d module_iri) dict)
            (query d system containsFlexConveyorModule) []"
    by blast
  then show ?thesis
    by (simp add: adjacency_matrix_get_parcels
      adjacency_matrix_convey adjacency_matrix_add_parcel adjacency_matrix_delete_parcel)
qed

section \<open>find\_path: identifiers that are not in the model\<close>

lemma find_path_unknown_start:
  "X \<notin> fst ` set am \<Longrightarrow> find_path am X t = Some ([StartNotFound X], Inr None)"
  by (simp add: find_path_def Let_def)

lemma find_path_unknown_target:
  "s \<in> fst ` set am \<Longrightarrow> X \<notin> fst ` set am \<Longrightarrow> find_path am s X = Some ([TargetNotFound X], Inr None)"
  by (simp add: find_path_def Let_def)

lemma find_path_None_message:
  assumes "s \<in> fst ` set am" "t \<in> fst ` set am" "find_path am s t = Some (printed, Inr None)"
  shows "printed = [NoPathFound s t]"
  using assms
  by (auto simp: find_path_def Let_def split: if_splits sum.splits option.splits prod.splits)

text \<open>
  Claim C3, as the program has it. For an identifier X that is not a key of the adjacency
  model, \<^verbatim>\<open>find_path\<close> with X as start, or with a known start and X as target, returns
  \<^verbatim>\<open>None\<close>: the same value it returns when both are modules and there is no path. The
  cases differ in the line printed only: "Start module X not found in system" or "Target
  module X not found in system", against "No path found from s to t".
\<close>

theorem find_path_unknown_module:
  "(X \<notin> fst ` set am \<longrightarrow> find_path am X t = Some ([StartNotFound X], Inr None))
   \<and> (s \<in> fst ` set am \<and> X \<notin> fst ` set am \<longrightarrow>
        find_path am s X = Some ([TargetNotFound X], Inr None))
   \<and> (s \<in> fst ` set am \<and> t \<in> fst ` set am \<and> find_path am s t = Some (printed, Inr None) \<longrightarrow>
        printed = [NoPathFound s t])"
proof (intro conjI impI)
  assume "X \<notin> fst ` set am"
  then show "find_path am X t = Some ([StartNotFound X], Inr None)"
    by (rule find_path_unknown_start)
next
  assume "s \<in> fst ` set am \<and> X \<notin> fst ` set am"
  then show "find_path am s X = Some ([TargetNotFound X], Inr None)"
    by (simp add: find_path_unknown_target)
next
  assume a: "s \<in> fst ` set am \<and> t \<in> fst ` set am \<and> find_path am s t = Some (printed, Inr None)"
  show "printed = [NoPathFound s t]"
    by (rule find_path_None_message[of s am t printed]) (use a in blast)+
qed

theorem find_path_unknown_module_witness:
  "''module9'' \<notin> fst ` set stub_matrix
   \<and> ''module1'' \<in> fst ` set stub_matrix \<and> ''module2'' \<in> fst ` set stub_matrix
   \<and> find_path stub_matrix ''module9'' ''module2'' = Some ([StartNotFound ''module9''], Inr None)
   \<and> find_path stub_matrix ''module1'' ''module9'' = Some ([TargetNotFound ''module9''], Inr None)
   \<and> find_path stub_matrix ''module1'' ''module2'' = Some ([NoPathFound ''module1'' ''module2''], Inr None)"
proof -
  have h1: "''module9'' \<notin> fst ` set stub_matrix" by (simp add: stub_matrix_def)
  have h2: "''module1'' \<in> fst ` set stub_matrix" by (simp add: stub_matrix_def)
  have h3: "''module2'' \<in> fst ` set stub_matrix" by (simp add: stub_matrix_def)
  have h4: "find_path stub_matrix ''module1'' ''module2'' = Some ([NoPathFound ''module1'' ''module2''], Inr None)"
    by code_simp
  note t = find_path_unknown_module[of "''module9''" stub_matrix "''module2''" "''module1''"
               "[NoPathFound ''module1'' ''module2'']"]
  have c1: "find_path stub_matrix ''module9'' ''module2'' = Some ([StartNotFound ''module9''], Inr None)"
    using t h1 by (elim conjE) (erule mp)
  have c2: "find_path stub_matrix ''module1'' ''module9'' = Some ([TargetNotFound ''module9''], Inr None)"
    using t h1 h2 by (elim conjE) (erule mp, rule conjI)
  show ?thesis
    by (intro conjI h1 h2 h3 h4 c1 c2)
qed

text \<open>
  Claim C3 as stated fails: in \<open>stub_matrix\<close> the value returned for the unknown module9, as
  start and as target, is the value returned for the pair module1, module2 of the model,
  between which there is no path.
\<close>

theorem find_path_unknown_module_counterexample:
  "''module9'' \<notin> fst ` set stub_matrix
   \<and> ''module1'' \<in> fst ` set stub_matrix \<and> ''module2'' \<in> fst ` set stub_matrix
   \<and> map_option snd (find_path stub_matrix ''module9'' ''module2'') = Some (Inr None)
   \<and> map_option snd (find_path stub_matrix ''module1'' ''module9'') = Some (Inr None)
   \<and> map_option snd (find_path stub_matrix ''module1'' ''module2'') = Some (Inr None)"
  by code_simp

section \<open>find\_path: a connection that leaves the model\<close>

text \<open>
  Claim C1 asks for a shortest path whenever the target can be reached. The constructor
  builds \<open>dangling_matrix\<close> from \<open>dangling_store\<close>; there module2 is the east neighbour of
  module1, yet \<^verbatim>\<open>find_path\<close> returns no path: the north connection is looked up in
  \<^verbatim>\<open>distances\<close> first, and that raises \<^verbatim>\<open>KeyError\<close>.
\<close>

theorem find_path_dangling_edge:
  "map_sum id adjacency_matrix (init ''system1'' dangling_store) = Inr dangling_matrix
   \<and> ''module1'' \<in> fst ` set dangling_matrix \<and> ''module2'' \<in> fst ` set dangling_matrix
   \<and> path_between dangling_matrix ''module1'' ''module2'' [''module1'', ''module2'']
   \<and> find_path dangling_matrix ''module1'' ''module2'' = Some ([], Inl (KeyError ''module7''))"
  by code_simp

section \<open>find\_path: shortest paths in a closed model\<close>

lemma edge_key: "edge am u v \<Longrightarrow> u \<in> fst ` set am"
  by (auto simp: edge_def split: option.splits dest: map_of_SomeD intro: rev_image_eqI)

lemma closed_edge:
  assumes c: "closed am" and e: "edge am u v"
  shows "v \<in> fst ` set am"
proof (cases "map_of am u")
  case None
  with e show ?thesis by (simp add: edge_def)
next
  case (Some cs)
  with e have v: "Some v \<in> set cs" by (simp add: edge_def)
  from Some have "(u, cs) \<in> set am" by (rule map_of_SomeD)
  with c have "list_all (\<lambda>c. case c of None \<Rightarrow> True | Some v \<Rightarrow> v \<in> fst ` set am) cs"
    by (auto simp: closed_def list_all_iff)
  with v show ?thesis by (auto simp: list_all_iff)
qed

lemma hops_key:
  assumes "hops am s v n" and "closed am" and "s \<in> fst ` set am"
  shows "v \<in> fst ` set am"
  using assms by (induction rule: hops.induct) (auto dest: closed_edge)

lemma graph_get_build_graph:
  "graph_get (build_graph am) u = (case map_of am u of None \<Rightarrow> [] | Some cs \<Rightarrow> neighbours cs)"
proof -
  have "map_of (build_graph am) u = map_option neighbours (map_of am u)"
    unfolding build_graph_def by (induction am) auto
  then show ?thesis by (simp add: graph_get_def split: option.split)
qed

lemma neighbours_set: "set (neighbours cs) = {(v, 1) | v. Some v \<in> set cs}"
  by (induction cs) (auto simp: neighbours_def split: option.splits)

lemma graph_get_edges: "set (graph_get (build_graph am) u) = {(v, 1) | v. edge am u v}"
  by (cases "map_of am u") (simp_all add: graph_get_build_graph neighbours_set edge_def)

lemma relax_closed_form:
  assumes "\<forall>(v, w) \<in> set nbs. w = 1 \<and> (v \<in> visited \<or> v \<in> dom distances)"
  shows "\<exists>pq'. relax nbs u d visited (distances, previous, pq) =
           Inr ((\<lambda>v. if relaxed (fst ` set nbs) visited d distances v then Some (enat (Suc d)) else distances v),
                (\<lambda>v. if relaxed (fst ` set nbs) visited d distances v then Some (Some u) else previous v),
                pq')
         \<and> set pq' = set pq \<union> {(Suc d, v) | v. relaxed (fst ` set nbs) visited d distances v}"
  using assms
proof (induction nbs arbitrary: distances previous pq)
  case Nil
  show ?case by (simp add: relaxed_def)
next
  case (Cons a nbs)
  obtain v w where a: "a = (v, w)" by (cases a)
  with Cons.prems have w: "w = 1" and vk: "v \<in> visited \<or> v \<in> dom distances"
    and rest: "\<forall>(v, w) \<in> set nbs. w = 1 \<and> (v \<in> visited \<or> v \<in> dom distances)"
    by auto
  let ?N = "fst ` set nbs"
  show ?case
  proof (cases "relaxed {v} visited d distances v")
    case False
    then have step: "relax (a # nbs) u d visited (distances, previous, pq)
                = relax nbs u d visited (distances, previous, pq)"
      using vk by (auto simp: a w relaxed_def split: option.splits)
    have eq: "relaxed (fst ` set (a # nbs)) visited d distances x = relaxed ?N visited d distances x" for x
      using False by (auto simp: relaxed_def a)
    from Cons.IH[OF rest, of previous pq] show ?thesis
      unfolding step eq by simp
  next
    case True
    let ?D = "distances(v \<mapsto> enat (Suc d))"
    let ?P = "previous(v \<mapsto> Some u)"
    from True have step: "relax (a # nbs) u d visited (distances, previous, pq)
                = relax nbs u d visited (?D, ?P, (Suc d, v) # pq)"
      by (auto simp: a w relaxed_def)
    have rest': "\<forall>(v, w) \<in> set nbs. w = 1 \<and> (v \<in> visited \<or> v \<in> dom ?D)"
      using rest by auto
    have r1: "relaxed (fst ` set (a # nbs)) visited d distances x
              \<longleftrightarrow> x = v \<or> relaxed ?N visited d ?D x" for x
      using True by (auto simp: relaxed_def a)
    have r2: "\<not> relaxed ?N visited d ?D v"
      by (simp add: relaxed_def)
    have d: "(\<lambda>x. if relaxed ?N visited d ?D x then Some (enat (Suc d)) else ?D x)
           = (\<lambda>x. if relaxed (fst ` set (a # nbs)) visited d distances x then Some (enat (Suc d)) else distances x)"
      by (rule ext) (use r1 r2 in auto)
    have p: "(\<lambda>x. if relaxed ?N visited d ?D x then Some (Some u) else ?P x)
           = (\<lambda>x. if relaxed (fst ` set (a # nbs)) visited d distances x then Some (Some u) else previous x)"
      by (rule ext) (use r1 r2 in auto)
    have q: "set ((Suc d, v) # pq) \<union> {(Suc d, x) | x. relaxed ?N visited d ?D x}
           = set pq \<union> {(Suc d, x) | x. relaxed (fst ` set (a # nbs)) visited d distances x}"
      using r1 by auto
    from Cons.IH[OF rest', of ?P "(Suc d, v) # pq"] show ?thesis
      unfolding step d p q .
  qed
qed

lemma invD:
  assumes "inv am s D P pq V"
  shows "dom D = fst ` set am" and "dom P = fst ` set am" and "V \<subseteq> fst ` set am"
    and "D s = Some 0" and "P s = Some None"
    and "\<And>v d. D v = Some (enat d) \<Longrightarrow> hops am s v d"
    and "\<And>u v. u \<in> V \<Longrightarrow> edge am u v \<Longrightarrow> \<exists>du x. D u = Some (enat du) \<and> D v = Some x \<and> x \<le> enat (Suc du)"
    and "\<And>v d. v \<notin> V \<Longrightarrow> D v = Some (enat d) \<Longrightarrow> (d, v) \<in> set pq"
    and "\<And>d v. (d, v) \<in> set pq \<Longrightarrow> \<exists>x. D v = Some x \<and> x \<le> enat d"
    and "\<And>u y du x. u \<in> V \<Longrightarrow> y \<notin> V \<Longrightarrow> D u = Some du \<Longrightarrow> D y = Some x \<Longrightarrow> du \<le> x"
    and "\<And>u. u \<in> V \<Longrightarrow> \<exists>d. D u = Some (enat d)"
    and "\<And>v d. v \<noteq> s \<Longrightarrow> D v = Some (enat d) \<Longrightarrow>
            \<exists>u d'. u \<in> V \<and> P v = Some (Some u) \<and> edge am u v \<and> D u = Some (enat d') \<and> d = Suc d'"
  using assms unfolding inv_def by (elim conjE, assumption | elim conjE, blast)+

lemma heappop_min:
  assumes "pq \<noteq> []" and "heappop pq = (x, pq')"
  shows "x \<in> set pq" and "pq' = remove1 x pq" and "\<And>y. y \<in> set pq \<Longrightarrow> x \<le> y"
proof -
  from heappop_in[OF assms] show "x \<in> set pq" and "pq' = remove1 x pq" by simp_all
  obtain a as where pq: "pq = a # as" using assms(1) by (cases pq) auto
  have "x = fold min as a"
    using assms(2) by (simp add: heappop_def pq Let_def)
  then have "x = Min (set pq)"
    unfolding pq by (simp only: Min.set_eq_fold)
  then show "\<And>y. y \<in> set pq \<Longrightarrow> x \<le> y" by simp
qed

lemma remove1_keeps: "y \<in> set pq \<Longrightarrow> y \<noteq> x \<Longrightarrow> y \<in> set (remove1 x pq)"
  by simp

lemma below_walks:
  assumes i: "inv am s D P pq V" and h: "hops am s v n"
  shows "(\<exists>x. D v = Some x \<and> x \<le> enat n)
       \<or> (\<exists>y x. y \<notin> V \<and> D y = Some x \<and> x \<le> enat n)"
  using h
proof (induction rule: hops.induct)
  case start
  show ?case using invD(4)[OF i] by (simp add: zero_enat_def)
next
  case (step w n v)
  from step.IH show ?case
  proof (elim disjE exE conjE)
    fix x assume x: "D w = Some x" "x \<le> enat n"
    show ?thesis
    proof (cases "w \<in> V")
      case True
      from invD(7)[OF i True step.hyps(2)] obtain du x' where
        d: "D w = Some (enat du)" "D v = Some x'" "x' \<le> enat (Suc du)" by blast
      with x have "du \<le> n" by auto
      then have "enat (Suc du) \<le> enat (Suc n)" by simp
      with d(3) have "x' \<le> enat (Suc n)" by (rule order_trans)
      with d(2) show ?thesis by blast
    next
      case False
      have "x \<le> enat (Suc n)" using x(2) by (rule order_trans) simp
      with False x(1) show ?thesis by blast
    qed
  next
    fix y x assume "y \<notin> V" "D y = Some x" "x \<le> enat n"
    moreover from this have "x \<le> enat (Suc n)" using order_trans[of x "enat n" "enat (Suc n)"] by simp
    ultimately show ?thesis by blast
  qed
qed

lemma pop_exact:
  assumes i: "inv am s D P pq V" and ne: "pq \<noteq> []" and pop: "heappop pq = ((d, u), pq')"
    and nv: "u \<notin> V"
  shows "D u = Some (enat d)" and "\<And>n. hops am s u n \<Longrightarrow> d \<le> n"
    and "\<And>y x. y \<notin> V \<Longrightarrow> D y = Some x \<Longrightarrow> enat d \<le> x"
proof -
  note m = heappop_min[OF ne pop]
  from invD(9)[OF i m(1)] obtain x where x: "D u = Some x" "x \<le> enat d" by blast
  then obtain d0 where d0: "x = enat d0" "d0 \<le> d" by (cases x) auto
  from invD(8)[OF i nv] x(1) d0(1) have "(d0, u) \<in> set pq" by simp
  from m(3)[OF this] have "d \<le> d0" by auto
  with d0 x show du: "D u = Some (enat d)" by simp
  show lo: "enat d \<le> x" if "y \<notin> V" "D y = Some x" for y x
  proof (cases x)
    case (enat n)
    with invD(8)[OF i that(1)] that(2) have "(n, y) \<in> set pq" by simp
    from m(3)[OF this] have "d \<le> n" by (auto simp: less_eq_prod_def)
    with enat show ?thesis by simp
  next
    case infinity
    then show ?thesis by simp
  qed
  show "d \<le> n" if "hops am s u n" for n
    using below_walks[OF i that]
  proof (elim disjE exE conjE)
    fix x assume "D u = Some x" "x \<le> enat n"
    with du show ?thesis by simp
  next
    fix y x assume "y \<notin> V" "D y = Some x" "x \<le> enat n"
    with lo[of y x] have "enat d \<le> enat n" using order_trans[of "enat d" x "enat n"] by simp
    then show ?thesis by simp
  qed
qed

lemma invI:
  assumes "dom D = fst ` set am" and "dom P = fst ` set am" and "V \<subseteq> fst ` set am"
    and "D s = Some 0" and "P s = Some None"
    and "\<And>v d. D v = Some (enat d) \<Longrightarrow> hops am s v d"
    and "\<And>u v. u \<in> V \<Longrightarrow> edge am u v \<Longrightarrow> \<exists>du x. D u = Some (enat du) \<and> D v = Some x \<and> x \<le> enat (Suc du)"
    and "\<And>v d. v \<notin> V \<Longrightarrow> D v = Some (enat d) \<Longrightarrow> (d, v) \<in> set pq"
    and "\<And>d v. (d, v) \<in> set pq \<Longrightarrow> \<exists>x. D v = Some x \<and> x \<le> enat d"
    and "\<And>u y du x. u \<in> V \<Longrightarrow> y \<notin> V \<Longrightarrow> D u = Some du \<Longrightarrow> D y = Some x \<Longrightarrow> du \<le> x"
    and "\<And>u. u \<in> V \<Longrightarrow> \<exists>d. D u = Some (enat d)"
    and "\<And>v d. v \<noteq> s \<Longrightarrow> D v = Some (enat d) \<Longrightarrow>
            \<exists>u d'. u \<in> V \<and> P v = Some (Some u) \<and> edge am u v \<and> D u = Some (enat d') \<and> d = Suc d'"
  shows "inv am s D P pq V"
  unfolding inv_def
proof (intro conjI allI impI)
  fix v d assume "D v = Some (enat d)"
  then show "hops am s v d" by (rule assms(6))
next
  fix u v assume "u \<in> V \<and> edge am u v"
  then show "\<exists>du x. D u = Some (enat du) \<and> D v = Some x \<and> x \<le> enat (Suc du)"
    using assms(7)[of u v] by simp
next
  fix v d assume "v \<notin> V \<and> D v = Some (enat d)"
  then show "(d, v) \<in> set pq" using assms(8)[of v d] by simp
next
  fix d v assume "(d, v) \<in> set pq"
  then show "\<exists>x. D v = Some x \<and> x \<le> enat d" by (rule assms(9))
next
  fix u y du x assume "u \<in> V \<and> y \<notin> V \<and> D u = Some du \<and> D y = Some x"
  then show "du \<le> x" using assms(10)[of u y du x] by simp
next
  fix u assume "u \<in> V"
  then show "\<exists>d. D u = Some (enat d)" by (rule assms(11))
next
  fix v d assume "v \<noteq> s \<and> D v = Some (enat d)"
  then show "\<exists>u d'. u \<in> V \<and> P v = Some (Some u) \<and> edge am u v \<and> D u = Some (enat d') \<and> d = Suc d'"
    using assms(12)[of v d] by simp
qed (rule assms)+

lemma step_stale:
  assumes i: "inv am s D P pq V" and ne: "pq \<noteq> []" and pop: "heappop pq = ((d, u), pq')"
    and v: "u \<in> V"
  shows "inv am s D P pq' V"
proof -
  note m = heappop_min[OF ne pop]
  have a: "(n, w) \<in> set pq'" if "w \<notin> V" "D w = Some (enat n)" for w n
  proof -
    from invD(8)[OF i that] have "(n, w) \<in> set pq" .
    moreover have "(n, w) \<noteq> (d, u)" using that(1) v by auto
    ultimately show ?thesis unfolding m(2) by (rule remove1_keeps)
  qed
  have b: "\<exists>x. D w = Some x \<and> x \<le> enat n" if "(n, w) \<in> set pq'" for n w
  proof -
    from that have "(n, w) \<in> set pq" unfolding m(2) using set_remove1_subset by fast
    then show ?thesis by (rule invD(9)[OF i])
  qed
  show ?thesis
    by (rule invI[OF invD(1-7)[OF i] a b invD(10-12)[OF i]])
qed

lemma step_visit:
  assumes i: "inv am s D P pq V" and c: "closed am"
    and ne: "pq \<noteq> []" and pop: "heappop pq = ((d, u), pq')" and nv: "u \<notin> V"
    and R: "\<And>v. R v \<longleftrightarrow> relaxed {v. edge am u v} (insert u V) d D v"
    and D': "D' = (\<lambda>v. if R v then Some (enat (Suc d)) else D v)"
    and P': "P' = (\<lambda>v. if R v then Some (Some u) else P v)"
    and pq'': "set pq'' = set pq' \<union> {(Suc d, v) | v. R v}"
  shows "inv am s D' P' pq'' (insert u V)"
proof -
  note m = heappop_min[OF ne pop]
  note e = pop_exact[OF i ne pop nv]
  have Rd: "edge am u v \<and> v \<notin> V \<and> v \<noteq> u \<and> (\<exists>x. D v = Some x \<and> enat (Suc d) < x)" if "R v" for v
    using that unfolding R relaxed_def by simp
  have Ri: "R v" if "edge am u v" "v \<notin> V" "v \<noteq> u" "D v = Some x" "enat (Suc d) < x" for v x
    using that unfolding R relaxed_def by simp
  have same: "D' v = D v" "P' v = P v" if "\<not> R v" for v
    using that by (simp_all add: D' P')
  have vis: "\<not> R v" if "v \<in> insert u V" for v
    using that Rd[of v] by blast
  have new: "D' v = Some (enat (Suc d))" "P' v = Some (Some u)" if "R v" for v
    using that by (simp_all add: D' P')
  have le: "\<exists>x'. D' v = Some x' \<and> x' \<le> x" if "D v = Some x" for v x
  proof (cases "R v")
    case True
    with Rd[of v] that have "enat (Suc d) \<le> x" by auto
    with new(1)[OF True] show ?thesis by simp
  next
    case False
    with same(1)[of v] that show ?thesis by simp
  qed
  have uk: "u \<in> fst ` set am"
    using e(1) invD(1)[OF i] by (auto simp: dom_def)
  have Du: "D' u = Some (enat d)"
    using same(1)[OF vis, of u] e(1) by simp
  show ?thesis
  proof (rule invI)
    show "dom D' = fst ` set am"
    proof -
      have "dom D' = dom D"
        using Rd by (auto simp: D' dom_def split: if_splits)
      then show ?thesis using invD(1)[OF i] by simp
    qed
    show "dom P' = fst ` set am"
    proof -
      have "R v \<Longrightarrow> v \<in> dom P" for v
        using Rd[of v] invD(1,2)[OF i] by (auto simp: dom_def)
      then have "dom P' = dom P"
        by (auto simp: P' dom_def split: if_splits)
      then show ?thesis using invD(2)[OF i] by simp
    qed
    show "insert u V \<subseteq> fst ` set am" using uk invD(3)[OF i] by simp
    have "\<not> R s"
    proof
      assume "R s"
      from Rd[OF this] invD(4)[OF i] show False by (auto simp: zero_enat_def)
    qed
    then show "D' s = Some 0" "P' s = Some None"
      using same[of s] invD(4,5)[OF i] by simp_all
  next
    fix v n assume a: "D' v = Some (enat n)"
    show "hops am s v n"
    proof (cases "R v")
      case True
      with new(1)[OF True] a have n: "n = Suc d" by simp
      from invD(6)[OF i e(1)] have "hops am s u d" .
      then have "hops am s v (Suc d)" using Rd[OF True] by (auto intro: hops.step)
      with n show ?thesis by simp
    next
      case False
      with same(1)[of v] a invD(6)[OF i] show ?thesis by simp
    qed
  next
    fix w v assume w: "w \<in> insert u V" and ed: "edge am w v"
    have vk: "v \<in> fst ` set am" using c ed by (rule closed_edge)
    then obtain x where x: "D v = Some x" using invD(1)[OF i] by (auto simp: dom_def)
    show "\<exists>du x. D' w = Some (enat du) \<and> D' v = Some x \<and> x \<le> enat (Suc du)"
    proof (cases "w = u")
      case True
      have "\<exists>x'. D' v = Some x' \<and> x' \<le> enat (Suc d)"
      proof (cases "R v")
        case True
        with new(1) show ?thesis by simp
      next
        case nr: False
        have "x \<le> enat (Suc d)"
        proof (cases "v \<in> insert u V")
          case False
          then have "v \<notin> V" "v \<noteq> u" by auto
          with nr Ri[of v x] ed True x have "\<not> enat (Suc d) < x" by auto
          then show ?thesis by simp
        next
          case True
          have "x \<le> enat d"
          proof (cases "v = u")
            case True
            with x e(1) show ?thesis by simp
          next
            case False
            with \<open>v \<in> insert u V\<close> have "v \<in> V" by simp
            from invD(10)[OF i this nv x e(1)] show ?thesis .
          qed
          then show ?thesis using order_trans[of x "enat d" "enat (Suc d)"] by simp
        qed
        with same(1)[OF nr] x show ?thesis by simp
      qed
      with True Du show ?thesis by blast
    next
      case False
      with w have wV: "w \<in> V" by simp
      from invD(7)[OF i wV ed] obtain du x0 where
        o: "D w = Some (enat du)" "D v = Some x0" "x0 \<le> enat (Suc du)" by blast
      from le[OF o(2)] obtain x' where "D' v = Some x'" "x' \<le> x0" by blast
      moreover from this o(3) have "x' \<le> enat (Suc du)" by (auto elim: order_trans)
      moreover have "D' w = Some (enat du)" using same(1)[OF vis, of w] wV o(1) by simp
      ultimately show ?thesis by blast
    qed
  next
    fix v n assume a: "v \<notin> insert u V" "D' v = Some (enat n)"
    show "(n, v) \<in> set pq''"
    proof (cases "R v")
      case True
      with new(1)[OF True] a(2) have "n = Suc d" by simp
      with True show ?thesis unfolding pq'' by blast
    next
      case False
      with same(1)[of v] a have "D v = Some (enat n)" "v \<notin> V" by simp_all
      from invD(8)[OF i this(2,1)] have "(n, v) \<in> set pq" .
      moreover have "(n, v) \<noteq> (d, u)" using a(1) by auto
      ultimately have "(n, v) \<in> set pq'" unfolding m(2) by (rule remove1_keeps)
      then show ?thesis unfolding pq'' by simp
    qed
  next
    fix n v assume "(n, v) \<in> set pq''"
    then consider "(n, v) \<in> set pq'" | "n = Suc d" "R v" unfolding pq'' by blast
    then show "\<exists>x. D' v = Some x \<and> x \<le> enat n"
    proof cases
      case 1
      then have "(n, v) \<in> set pq" unfolding m(2) using set_remove1_subset by fast
      from invD(9)[OF i this] obtain x where x: "D v = Some x" "x \<le> enat n" by blast
      from le[OF x(1)] obtain x' where "D' v = Some x'" "x' \<le> x" by blast
      with x(2) show ?thesis by (auto elim: order_trans)
    next
      case 2
      with new(1) show ?thesis by simp
    qed
  next
    fix w y du x assume a: "w \<in> insert u V" "y \<notin> insert u V" "D' w = Some du" "D' y = Some x"
    have dw: "D w = Some du" using same(1)[OF vis, of w] a(1,3) by simp
    have wd: "du \<le> enat d"
    proof (cases "w = u")
      case True
      with dw e(1) show ?thesis by simp
    next
      case False
      with a(1) have "w \<in> V" by simp
      from invD(10)[OF i this nv dw e(1)] show ?thesis .
    qed
    show "du \<le> x"
    proof (cases "R y")
      case True
      with new(1)[OF True] a(4) have "x = enat (Suc d)" by simp
      with wd show ?thesis using order_trans[of du "enat d" "enat (Suc d)"] by simp
    next
      case False
      with same(1)[of y] a(4) have dy: "D y = Some x" by simp
      from a(2) have "y \<notin> V" by simp
      from e(3)[OF this dy] wd show ?thesis by (rule order_trans[rotated])
    qed
  next
    fix w assume "w \<in> insert u V"
    then show "\<exists>n. D' w = Some (enat n)"
      using same(1)[OF vis, of w] e(1) invD(11)[OF i, of w] by auto
  next
    fix v n assume a: "v \<noteq> s" "D' v = Some (enat n)"
    show "\<exists>w d'. w \<in> insert u V \<and> P' v = Some (Some w) \<and> edge am w v \<and> D' w = Some (enat d') \<and> n = Suc d'"
    proof (cases "R v")
      case True
      with new[OF True] a(2) have "n = Suc d" "P' v = Some (Some u)" by simp_all
      with Rd[OF True] Du show ?thesis by blast
    next
      case False
      with same[of v] a(2) have "D v = Some (enat n)" "P' v = P v" by simp_all
      from invD(12)[OF i a(1) this(1)] obtain w d' where
        o: "w \<in> V" "P v = Some (Some w)" "edge am w v" "D w = Some (enat d')" "n = Suc d'" by blast
      have "D' w = Some (enat d')" using same(1)[OF vis, of w] o(1,4) by simp
      with o \<open>P' v = P v\<close> show ?thesis by auto
    qed
  qed
qed

lemma inv_settled:
  assumes i: "inv am s D P pq V" and t: "t \<in> fst ` set am"
    and low: "\<And>m. hops am s t m \<Longrightarrow> \<exists>x. D t = Some x \<and> x \<le> enat m"
  shows "settled am s t D P"
  unfolding settled_def
proof (intro conjI allI impI)
  show "D s = Some 0" "P s = Some None" using invD(4,5)[OF i] by simp_all
  show "\<exists>x. D t = Some x" using t invD(1)[OF i] by (auto simp: dom_def)
next
  fix v d assume "v \<noteq> s \<and> D v = Some (enat d)"
  then have "\<exists>u d'. u \<in> V \<and> P v = Some (Some u) \<and> edge am u v \<and> D u = Some (enat d') \<and> d = Suc d'"
    using invD(12)[OF i, of v d] by simp
  then show "\<exists>u d'. P v = Some (Some u) \<and> edge am u v \<and> D u = Some (enat d') \<and> d = Suc d'"
    by blast
next
  fix n assume "D t = Some (enat n)"
  then show "hops am s t n" by (rule invD(6)[OF i])
next
  fix n m assume "D t = Some (enat n)" "hops am s t m"
  with low[of m] show "n \<le> m" by auto
next
  fix m assume "D t = Some \<infinity>"
  with low[of m] show "\<not> hops am s t m" by auto
qed

lemma dijkstra_settles:
  assumes "inv am s (fst st) (fst (snd st)) (snd (snd st)) V"
    and "g = build_graph am" and "closed am" and "t \<in> fst ` set am"
  shows "\<exists>D' P'. dijkstra g t st V = Inr (D', P') \<and> settled am s t D' P'"
  using assms
proof (induction g t st V rule: dijkstra.induct)
  case (1 graph target D P pq V)
  from "1.prems" have i: "inv am s D P pq V" and g: "graph = build_graph am"
    and c: "closed am" and t: "target \<in> fst ` set am" by simp_all
  show ?case
  proof (cases "pq = []")
    case True
    have low: "\<exists>x. D target = Some x \<and> x \<le> enat m" if "hops am s target m" for m
      using below_walks[OF i that]
    proof (elim disjE exE conjE)
      fix x assume "D target = Some x" "x \<le> enat m"
      then show ?thesis by blast
    next
      fix y x assume y: "y \<notin> V" "D y = Some x" "x \<le> enat m"
      then obtain k where "x = enat k" by (cases x) auto
      with invD(8)[OF i y(1)] y(2) have "(k, y) \<in> set pq" by simp
      with True show ?thesis by simp
    qed
    have "settled am s target D P" using i t low by (rule inv_settled)
    with True show ?thesis by (simp add: dijkstra.simps)
  next
    case False
    obtain d u pq' where pop: "heappop pq = ((d, u), pq')"
      by (cases "heappop pq") auto
    show ?thesis
    proof (cases "u \<in> V")
      case True
      have "inv am s D P pq' V" using i False pop True by (rule step_stale)
      then have "\<exists>D' P'. dijkstra graph target (D, P, pq') V = Inr (D', P') \<and> settled am s target D' P'"
        using "1.IH"(1)[OF False pop[symmetric] refl True] g c t by simp
      with False pop True show ?thesis by (simp add: dijkstra.simps)
    next
      case nv: False
      note e = pop_exact[OF i False pop nv]
      show ?thesis
      proof (cases "u = target")
        case True
        have low: "\<exists>x. D target = Some x \<and> x \<le> enat m" if "hops am s target m" for m
          using e(1) e(2)[of m] that True by simp
        have "settled am s target D P" using i t low by (rule inv_settled)
        with False pop nv True show ?thesis by (simp add: dijkstra.simps)
      next
        case nt: False
        let ?nbs = "graph_get graph u"
        have nb: "set ?nbs = {(v, 1) | v. edge am u v}"
          unfolding g by (rule graph_get_edges)
        have ok: "\<forall>(v, w) \<in> set ?nbs. w = 1 \<and> (v \<in> insert u V \<or> v \<in> dom D)"
          unfolding nb using closed_edge[OF c] invD(1)[OF i] by auto
        have fs: "fst ` set ?nbs = {v. edge am u v}"
          unfolding nb by force
        from relax_closed_form[OF ok, of u d P pq'] obtain pq'' where
          r: "relax ?nbs u d (insert u V) (D, P, pq') =
               Inr ((\<lambda>v. if relaxed {v. edge am u v} (insert u V) d D v then Some (enat (Suc d)) else D v),
                    (\<lambda>v. if relaxed {v. edge am u v} (insert u V) d D v then Some (Some u) else P v),
                    pq'')"
          and q: "set pq'' = set pq' \<union> {(Suc d, v) | v. relaxed {v. edge am u v} (insert u V) d D v}"
          unfolding fs by blast
        let ?D = "\<lambda>v. if relaxed {v. edge am u v} (insert u V) d D v then Some (enat (Suc d)) else D v"
        let ?P = "\<lambda>v. if relaxed {v. edge am u v} (insert u V) d D v then Some (Some u) else P v"
        have "inv am s ?D ?P pq'' (insert u V)"
          by (rule step_visit[OF i c False pop nv refl refl refl q])
        then have "\<exists>D' P'. dijkstra graph target (?D, ?P, pq'') (insert u V) = Inr (D', P')
                     \<and> settled am s target D' P'"
          using "1.IH"(2)[OF False pop[symmetric] refl nv nt r] g c t by simp
        with False pop nv nt r show ?thesis by (simp add: dijkstra.simps)
      qed
    qed
  qed
qed

lemma is_path_snoc: "is_path am q \<Longrightarrow> edge am (last q) v \<Longrightarrow> is_path am (q @ [v])"
  by (induction am q rule: is_path.induct) auto

lemma hops_prepend: "hops am u v n \<Longrightarrow> edge am w u \<Longrightarrow> hops am w v (Suc n)"
proof (induction rule: hops.induct)
  case start
  have "hops am w w 0" by (rule hops.start)
  then show ?case using start by (rule hops.step)
next
  case (step x n v)
  from step.IH[OF step.prems] step.hyps(2) show ?case by (rule hops.step)
qed

lemma path_hops: "is_path am p \<Longrightarrow> hops am (hd p) (last p) (length p - 1)"
proof (induction am p rule: is_path.induct)
  case (1 am)
  then show ?case by simp
next
  case (2 am x)
  show ?case by (simp add: hops.start)
next
  case (3 am x y rest)
  then have "hops am y (last (y # rest)) (length rest)" by simp
  moreover from 3 have "edge am x y" by simp
  ultimately have "hops am x (last (y # rest)) (Suc (length rest))" by (rule hops_prepend)
  then show ?case by simp
qed

lemma walk_back_path:
  assumes st: "settled am s t D P"
  shows "D v = Some (enat n) \<Longrightarrow>
     \<exists>p. walk_back P (Some v) acc = Some (Inr (acc @ p)) \<and> length p = Suc n
        \<and> hd p = v \<and> last p = s \<and> is_path am (rev p)"
proof (induction n arbitrary: v acc)
  case 0
  have "v = s"
  proof (rule ccontr)
    assume "v \<noteq> s"
    with st 0 have "\<exists>u d'. P v = Some (Some u) \<and> edge am u v \<and> D u = Some (enat d') \<and> (0::nat) = Suc d'"
      unfolding settled_def by blast
    then show False by simp
  qed
  moreover from st have "P s = Some None" unfolding settled_def by simp
  ultimately have "walk_back P (Some v) acc = Some (Inr (acc @ [s]))"
    by (simp add: walk_back.simps)
  with \<open>v = s\<close> show ?case by simp
next
  case (Suc k)
  from st have "D s = Some 0" unfolding settled_def by simp
  with Suc.prems have ns: "v \<noteq> s" by (auto simp: zero_enat_def)
  with st Suc.prems have "\<exists>u d'. P v = Some (Some u) \<and> edge am u v \<and> D u = Some (enat d') \<and> Suc k = Suc d'"
    unfolding settled_def by blast
  then obtain u where u: "P v = Some (Some u)" "edge am u v" "D u = Some (enat k)" by auto
  from Suc.IH[OF u(3), of "acc @ [v]"] obtain p where
    p: "walk_back P (Some u) (acc @ [v]) = Some (Inr ((acc @ [v]) @ p))" "length p = Suc k"
       "hd p = u" "last p = s" "is_path am (rev p)" by blast
  from p(2) have pn: "p \<noteq> []" by auto
  have w: "walk_back P (Some v) acc = Some (Inr (acc @ (v # p)))"
    using u(1) p(1) by (subst walk_back.simps) simp
  have "last (rev p) = u" using pn p(3) by (simp add: last_rev)
  with p(5) u(2) have "is_path am (rev p @ [v])" by (simp add: is_path_snoc)
  with w p(2,4) pn show ?case by simp
qed

lemma map_of_const:
  "map_of (map (\<lambda>m. (m, c)) ms) v = (if v \<in> set ms then Some c else None)"
  by (induction ms) auto

lemma inv_init:
  assumes "s \<in> fst ` set am"
  shows "inv am s ((map_of (map (\<lambda>m. (m, \<infinity>)) (map fst am)))(s \<mapsto> 0))
           (map_of (map (\<lambda>m. (m, None)) (map fst am))) [(0, s)] {}"
proof -
  let ?D = "(map_of (map (\<lambda>m. (m, \<infinity>)) (map fst am)))(s \<mapsto> 0)"
  let ?P = "map_of (map (\<lambda>m. (m, None)) (map fst am))"
  have D: "?D v = (if v = s then Some 0 else if v \<in> fst ` set am then Some \<infinity> else None)" for v
    by (simp add: map_of_const del: map_map)
  have P: "?P v = (if v \<in> fst ` set am then Some None else None)" for v
    by (simp add: map_of_const del: map_map)
  have fin: "v = s \<and> d = 0" if "?D v = Some (enat d)" for v d
    using that unfolding D by (auto simp: zero_enat_def split: if_splits)
  show ?thesis
  proof (rule invI)
    show "dom ?D = fst ` set am"
      unfolding dom_def D using assms by (auto split: if_splits)
    show "dom ?P = fst ` set am"
      unfolding dom_def P by (auto split: if_splits)
    show "{} \<subseteq> fst ` set am" by simp
    show "?D s = Some 0" by simp
    show "?P s = Some None" unfolding P using assms by simp
    show "hops am s v d" if "?D v = Some (enat d)" for v d
      using fin[OF that] by (simp add: hops.start)
    show "(d, v) \<in> set [(0, s)]" if "v \<notin> {}" "?D v = Some (enat d)" for v d
      using fin[OF that(2)] by simp
    show "\<exists>x. ?D v = Some x \<and> x \<le> enat d" if "(d, v) \<in> set [(0, s)]" for d v
      using that by (simp add: zero_enat_def)
    show "\<exists>u d'. u \<in> {} \<and> ?P v = Some (Some u) \<and> edge am u v
          \<and> ?D u = Some (enat d') \<and> d = Suc d'" if "v \<noteq> s" "?D v = Some (enat d)" for v d
      using fin[OF that(2)] that(1) by simp
  qed simp_all
qed

lemma is_path_nonempty: "is_path am p \<Longrightarrow> p \<noteq> []"
  by (cases p) simp_all

text \<open>
  In a closed model \<^verbatim>\<open>find_path\<close> does what claim C1 says. For modules s \<noteq> t of the model:
  if t can be reached from s, the call returns a path from s to t that no path from s to t
  is shorter than (and prints its distance and length); if t cannot be reached, it returns
  \<^verbatim>\<open>None\<close> after printing "No path found". The call returns in both cases.
\<close>

theorem find_path_closed:
  assumes c: "closed am" and sk: "s \<in> fst ` set am" and tk: "t \<in> fst ` set am" and ne: "s \<noteq> t"
  shows "((\<exists>q. path_between am s t q) \<longrightarrow>
            (\<exists>p. find_path am s t = Some ([PathFound (enat (length p - 1)) (length p)], Inr (Some p))
               \<and> path_between am s t p
               \<and> (\<forall>q. path_between am s t q \<longrightarrow> length p \<le> length q)))
       \<and> (\<not> (\<exists>q. path_between am s t q) \<longrightarrow> find_path am s t = Some ([NoPathFound s t], Inr None))"
proof -
  let ?D0 = "(map_of (map (\<lambda>m. (m, \<infinity>)) (map fst am)))(s \<mapsto> 0)"
  let ?P0 = "map_of (map (\<lambda>m. (m, None)) (map fst am))"
  have "inv am s (fst (?D0, ?P0, [(0, s)])) (fst (snd (?D0, ?P0, [(0, s)]))) (snd (snd (?D0, ?P0, [(0, s)]))) {}"
    using inv_init[OF sk] by simp
  from dijkstra_settles[OF this refl c tk] obtain D P where
    dj: "dijkstra (build_graph am) t (?D0, ?P0, [(0, s)]) {} = Inr (D, P)"
    and st: "settled am s t D P" by blast
  from st obtain x where x: "D t = Some x" unfolding settled_def by blast
  have hq: "hops am s t (length q - 1)" if "path_between am s t q" for q
    using path_hops[of am q] that unfolding path_between_def by auto
  show ?thesis
  proof (cases x)
    case infinity
    with x st have "\<not> hops am s t m" for m unfolding settled_def by blast
    with hq have none: "\<not> (\<exists>q. path_between am s t q)" by blast
    have "find_path am s t = Some ([NoPathFound s t], Inr None)"
      using sk tk ne dj x infinity by (simp add: find_path_def Let_def)
    with none show ?thesis by simp
  next
    case (enat n)
    with x st have low: "hops am s t m \<Longrightarrow> n \<le> m" for m unfolding settled_def by blast
    from walk_back_path[OF st, of t n "[]"] x enat obtain p0 where
      p0: "walk_back P (Some t) [] = Some (Inr p0)" "length p0 = Suc n" "hd p0 = t" "last p0 = s"
          "is_path am (rev p0)" by auto
    from p0(2) have pn: "p0 \<noteq> []" by auto
    have pb: "path_between am s t (rev p0)"
      unfolding path_between_def using p0(3,4,5) pn by (simp add: hd_rev last_rev)
    have res: "find_path am s t = Some ([PathFound (enat n) (Suc n)], Inr (Some (rev p0)))"
      using sk tk ne dj x enat p0(1,2) by (simp add: find_path_def Let_def)
    have short: "length (rev p0) \<le> length q" if "path_between am s t q" for q
    proof -
      from low[OF hq[OF that]] have "n \<le> length q - 1" .
      moreover from that have "q \<noteq> []" unfolding path_between_def by (auto dest: is_path_nonempty)
      ultimately show ?thesis using p0(2) by (cases q) auto
    qed
    have "find_path am s t = Some ([PathFound (enat (length (rev p0) - 1)) (length (rev p0))], Inr (Some (rev p0)))"
      using res p0(2) by simp
    with pb short show ?thesis by blast
  qed
qed

theorem find_path_closed_witness:
  "closed ring_matrix
   \<and> ''module1'' \<in> fst ` set ring_matrix \<and> ''module3'' \<in> fst ` set ring_matrix
   \<and> ''module1'' \<noteq> ''module3''
   \<and> path_between ring_matrix ''module1'' ''module3'' [''module1'', ''module2'', ''module3'']
   \<and> (\<exists>p. find_path ring_matrix ''module1'' ''module3''
              = Some ([PathFound (enat (length p - 1)) (length p)], Inr (Some p))
          \<and> path_between ring_matrix ''module1'' ''module3'' p
          \<and> length p \<le> 3)"
proof -
  have h1: "closed ring_matrix" by code_simp
  have h2: "''module1'' \<in> fst ` set ring_matrix" by (simp add: ring_matrix_def)
  have h3: "''module3'' \<in> fst ` set ring_matrix" by (simp add: ring_matrix_def)
  have h4: "''module1'' \<noteq> ''module3''" by simp
  have h5: "path_between ring_matrix ''module1'' ''module3'' [''module1'', ''module2'', ''module3'']"
    by code_simp
  have ex: "\<exists>q. path_between ring_matrix ''module1'' ''module3'' q"
    by (rule exI, rule h5)
  note t = find_path_closed[OF h1 h2 h3 h4, THEN conjunct1, THEN mp, OF ex]
  from t obtain p where
    p: "find_path ring_matrix ''module1'' ''module3''
          = Some ([PathFound (enat (length p - 1)) (length p)], Inr (Some p))"
       "path_between ring_matrix ''module1'' ''module3'' p"
       "\<forall>q. path_between ring_matrix ''module1'' ''module3'' q \<longrightarrow> length p \<le> length q"
    by (elim exE conjE)
  from p(3)[THEN spec, THEN mp, OF h5] have "length p \<le> 3" by simp
  with p(1,2) have "\<exists>p. find_path ring_matrix ''module1'' ''module3''
              = Some ([PathFound (enat (length p - 1)) (length p)], Inr (Some p))
          \<and> path_between ring_matrix ''module1'' ''module3'' p
          \<and> length p \<le> 3"
    by (intro exI[of _ p] conjI)
  with h1 h2 h3 h4 h5 show ?thesis by (intro conjI)
qed

section \<open>convey from a module that holds no parcel\<close>

lemma first_match_Some:
  "Some b \<in> set connections \<Longrightarrow> \<exists>idx. first_match connections b i = Some idx \<and> idx < i + length connections"
proof (induction connections arbitrary: i)
  case Nil
  then show ?case by simp
next
  case (Cons c cs)
  show ?case
  proof (cases "c = Some b")
    case True
    then show ?thesis by simp
  next
    case False
    with Cons.prems have "Some b \<in> set cs" by simp
    from Cons.IH[OF this, of "Suc i"] False show ?thesis by auto
  qed
qed

lemma not_possessed:
  assumes "triples_get d (Some (Str a)) (Some hasPossession) None = []"
  shows "(a, hasPossession, p) \<notin> set (facts d)"
proof
  assume "(a, hasPossession, p) \<in> set (facts d)"
  then have "(a, hasPossession, p) \<in> set (triples_get d (Some (Str a)) (Some hasPossession) None)"
    by (simp add: triples_get_def bound_def)
  with assms show False by simp
qed

text \<open>
  Claim C8, as the program has it. For every module A of the model (with its four
  connections) one of whose connections is B, if no parcel occupies A then \<^verbatim>\<open>convey(A, B)\<close>
  does not stop with a usage error: it goes on with the empty parcel identifier and sends the
  store one conditioned update built with it. The store does not apply it (A possesses
  nothing, so the old facts are absent: a precondition error, or a store error if the store
  fails the request); that error is raised to the caller and the facts are unchanged.
\<close>

theorem convey_empty_module:
  assumes "map_of (adjacency_matrix st) A = Some connections"
    and "Some B \<in> set connections"
    and "length connections = 4"
    and "triples_get (db st) (Some (Str A)) (Some hasPossession) None = []"
  shows "journal (db (snd (convey st A B))) = journal (db st) @ [empty_update A B]
       \<and> facts (db (snd (convey st A B))) = facts (db st)
       \<and> fst (convey st A B) =
           Inl (if denied (db st) (empty_update A B) then StoreError else PreconditionError)"
proof -
  obtain idx where i: "first_match connections B 0 = Some idx" "idx < 4"
    using first_match_Some[OF assms(2), of 0] assms(3) by auto
  have n: "(A, hasPossession, Str []) \<notin> set (facts (db st))"
    using not_possessed[OF assms(4)] .
  show ?thesis
    using assms(1,4) i n
    by (simp add: convey_def Let_def directions_def empty_update_def triples_update_def received_def)
qed

theorem convey_empty_module_witness:
  "map_of (adjacency_matrix ring_system) ''module2'' = Some [None, None, Some ''module3'', None]
   \<and> Some ''module3'' \<in> set [None, None, Some ''module3'', None]
   \<and> length [None, None, Some ''module3'', None :: iri option] = 4
   \<and> triples_get (db ring_system) (Some (Str ''module2'')) (Some hasPossession) None = []
   \<and> journal (db (snd (convey ring_system ''module2'' ''module3'')))
       = journal (db ring_system) @ [empty_update ''module2'' ''module3'']
   \<and> facts (db (snd (convey ring_system ''module2'' ''module3''))) = facts (db ring_system)"
proof -
  have h1: "map_of (adjacency_matrix ring_system) ''module2'' = Some [None, None, Some ''module3'', None]"
    by (simp add: ring_system_def ring_matrix_def)
  have h2: "Some ''module3'' \<in> set [None, None, Some ''module3'', None]"
    by simp
  have h3: "length [None, None, Some ''module3'', None :: iri option] = 4"
    by simp
  have h4: "triples_get (db ring_system) (Some (Str ''module2'')) (Some hasPossession) None = []"
    by code_simp
  note t = convey_empty_module[OF h1 h2 h3 h4]
  show ?thesis
    by (intro conjI h1 h2 h3 h4 t[THEN conjunct1] t[THEN conjunct2, THEN conjunct1])
qed

text \<open>
  Claim C8 as stated fails: in the ring, module2 holds no parcel and module3 is its south
  connection; \<^verbatim>\<open>convey(module2, module3)\<close> sends the update with the empty identifier and
  what it raises is the store's precondition error, not a \<^verbatim>\<open>ValueError\<close>.
\<close>

theorem convey_empty_module_counterexample:
  "map_of (adjacency_matrix ring_system) ''module2'' = Some [None, None, Some ''module3'', None]
   \<and> triples_get (db ring_system) (Some (Str ''module2'')) (Some hasPossession) None = []
   \<and> fst (convey ring_system ''module2'' ''module3'') = Inl PreconditionError
   \<and> journal (db (snd (convey ring_system ''module2'' ''module3'')))
       = [Update [(''module2'', hasPossession, Str []), ([], isPossessedBy, Str ''module2'')]
                 [(''module3'', hasPossession, Str []), ([], isPossessedBy, Str ''module3'')] True]"
  by code_simp

section \<open>get\_parcels: arrival cleanup\<close>

lemma new_entries_append: "log_file st' = log_file st @ ls \<Longrightarrow> new_entries st st' = ls"
  by (simp add: new_entries_def)

lemma parcels_delete_parcel: "parcels (snd (delete_parcel st p)) = parcels st"
  by (simp add: delete_parcel_def Let_def split: prod.split)

lemma log_file_delete_parcel:
  "\<exists>ls. log_file (snd (delete_parcel st p)) = log_file st @ ls
        \<and> set ls \<subseteq> {(ERROR, NotInDatabase p)}"
  by (simp add: delete_parcel_def Let_def split: prod.split)

text \<open>
  One round of the third loop: either the entry stays and the failure is logged, with the
  error \<^verbatim>\<open>delete_parcel\<close> raised if it raised one, or \<^verbatim>\<open>delete_parcel\<close> returned and
  the entry is removed.
\<close>

lemma try_delete_cases:
  "(\<exists>ls. parcels (try_delete st p) = parcels st
         \<and> log_file (try_delete st p) = log_file st @ ls
         \<and> (\<forall>k. failure_logged k ls \<longleftrightarrow> k = p)
         \<and> (\<forall>e. fst (delete_parcel (logging st INFO (DeletingParcel p)) p) = Inl e
                \<longrightarrow> (ERROR, FailedToDelete p e) \<in> set ls))
   \<or> (\<exists>ls. parcels (try_delete st p) = AList.delete p (parcels st)
         \<and> log_file (try_delete st p) = log_file st @ ls
         \<and> (\<forall>k. \<not> failure_logged k ls)
         \<and> fst (delete_parcel (logging st INFO (DeletingParcel p)) p) = Inr ())"
proof -
  let ?st1 = "logging st INFO (DeletingParcel p)"
  obtain r st' where d: "delete_parcel ?st1 p = (r, st')"
    by (cases "delete_parcel ?st1 p")
  have ps: "parcels st' = parcels st"
    using parcels_delete_parcel[of ?st1 p] d by simp
  obtain ls where ls: "log_file st' = log_file ?st1 @ ls" "set ls \<subseteq> {(ERROR, NotInDatabase p)}"
    using log_file_delete_parcel[of ?st1 p] d by auto
  have nf: "\<not> failure_logged k ls" for k
    using ls(2) by (auto simp: failure_logged_iff)
  show ?thesis
  proof (cases r)
    case (Inl e)
    have "log_file (try_delete st p) = log_file st @ ((INFO, DeletingParcel p) # ls @ [(ERROR, FailedToDelete p e)])"
      by (simp add: try_delete_def d Inl ls)
    moreover have "failure_logged k ((INFO, DeletingParcel p) # ls @ [(ERROR, FailedToDelete p e)]) \<longleftrightarrow> k = p" for k
      using nf[of k] by (auto simp: failure_logged_iff)
    moreover have "parcels (try_delete st p) = parcels st"
      by (simp add: try_delete_def d Inl ps)
    moreover have "\<forall>e'. fst (delete_parcel ?st1 p) = Inl e'
        \<longrightarrow> (ERROR, FailedToDelete p e') \<in> set ((INFO, DeletingParcel p) # ls @ [(ERROR, FailedToDelete p e)])"
      by (simp add: d Inl)
    ultimately show ?thesis by blast
  next
    case (Inr u)
    show ?thesis
    proof (cases p)
      case (NonStr v)
      have "log_file (try_delete st p) = log_file st @ ((INFO, DeletingParcel p) # ls @ [(ERROR, FailedToDelete p TypeError)])"
        unfolding try_delete_def d by (simp add: Inr ls NonStr)
      moreover have "failure_logged k ((INFO, DeletingParcel p) # ls @ [(ERROR, FailedToDelete p TypeError)]) \<longleftrightarrow> k = p" for k
        using nf[of k] by (auto simp: failure_logged_iff)
      moreover have "parcels (try_delete st p) = parcels st"
        unfolding try_delete_def d by (simp add: Inr ps NonStr)
      moreover have "\<forall>e'. fst (delete_parcel ?st1 p) = Inl e'
          \<longrightarrow> (ERROR, FailedToDelete p e') \<in> set ((INFO, DeletingParcel p) # ls @ [(ERROR, FailedToDelete p TypeError)])"
        by (simp add: d Inr)
      ultimately show ?thesis by blast
    next
      case (Str q)
      have "log_file (try_delete st p) = log_file st @ ((INFO, DeletingParcel p) # ls @ [(INFO, ParcelDeleted (shorten_iri q))])"
        unfolding try_delete_def d by (simp add: Inr ls Str)
      moreover have "\<not> failure_logged k ((INFO, DeletingParcel p) # ls @ [(INFO, ParcelDeleted (shorten_iri q))])" for k
        using nf[of k] by (auto simp: failure_logged_iff)
      moreover have "parcels (try_delete st p) = AList.delete p (parcels st)"
        unfolding try_delete_def d by (simp add: Inr ps Str)
      moreover have "fst (delete_parcel ?st1 p) = Inr ()"
        by (simp add: d Inr)
      ultimately show ?thesis by blast
    qed
  qed
qed

lemma delete_arrived_log:
  "\<exists>ls. log_file (delete_arrived ps st) = log_file st @ ls"
proof (induction ps arbitrary: st)
  case Nil
  then show ?case by simp
next
  case (Cons p ps)
  from try_delete_cases[of st p] obtain l1 where "log_file (try_delete st p) = log_file st @ l1"
    by blast
  moreover from Cons[of "try_delete st p"] obtain l2 where
    "log_file (delete_arrived ps (try_delete st p)) = log_file (try_delete st p) @ l2" by blast
  ultimately show ?case by simp
qed

text \<open>A call of \<^verbatim>\<open>delete_parcel\<close> that raised is in the log, with its error.\<close>

lemma deletions_logged:
  "(k, Inl e) \<in> set (deletions ps st)
   \<Longrightarrow> \<exists>ls. log_file (delete_arrived ps st) = log_file st @ ls \<and> (ERROR, FailedToDelete k e) \<in> set ls"
proof (induction ps arbitrary: st)
  case Nil
  then show ?case by simp
next
  case (Cons p ps)
  let ?st' = "try_delete st p"
  from delete_arrived_log[of ps ?st'] obtain l2 where
    l2: "log_file (delete_arrived ps ?st') = log_file ?st' @ l2" by blast
  from try_delete_cases[of st p] obtain l1 where
    l1: "log_file ?st' = log_file st @ l1"
    and f: "\<And>e. fst (delete_parcel (logging st INFO (DeletingParcel p)) p) = Inl e
                \<Longrightarrow> (ERROR, FailedToDelete p e) \<in> set l1"
    by (elim disjE exE conjE) simp_all
  show ?case
  proof (cases "(k, Inl e) \<in> set (deletions ps ?st')")
    case True
    from Cons.IH[OF True] obtain l3 where
      l3: "log_file (delete_arrived ps ?st') = log_file ?st' @ l3" "(ERROR, FailedToDelete k e) \<in> set l3"
      by blast
    show ?thesis
      by (rule exI[of _ "l1 @ l3"]) (simp add: l3 l1)
  next
    case False
    with Cons.prems have "k = p" "fst (delete_parcel (logging st INFO (DeletingParcel p)) p) = Inl e"
      by simp_all
    with f[of e] have "(ERROR, FailedToDelete k e) \<in> set l1" by simp
    then show ?thesis
      by (intro exI[of _ "l1 @ l2"]) (simp add: l2 l1)
  qed
qed

lemma deletions_keys: "map fst (deletions ps st) = ps"
  by (induction ps arbitrary: st) simp_all

lemma set_delete: "set (AList.delete p al) = {x \<in> set al. fst x \<noteq> p}"
  by (auto simp: AList.delete_eq)

text \<open>The invariant of the third loop, for the entries of one key.\<close>

lemma delete_arrived_entries:
  "\<exists>ls. log_file (delete_arrived ps st) = log_file st @ ls
     \<and> set (parcels (delete_arrived ps st)) \<subseteq> set (parcels st)
     \<and> (\<forall>k info. (k, info) \<in> set (parcels (delete_arrived ps st)) \<and> k \<in> set ps \<longrightarrow> failure_logged k ls)
     \<and> (\<forall>k info. (k, info) \<in> set (parcels st) \<and> k \<notin> set ps \<longrightarrow> (k, info) \<in> set (parcels (delete_arrived ps st)))
     \<and> (\<forall>k. failure_logged k ls \<longrightarrow> k \<in> set ps)
     \<and> (distinct ps \<longrightarrow> (\<forall>k info. failure_logged k ls \<and> (k, info) \<in> set (parcels st)
            \<longrightarrow> (k, info) \<in> set (parcels (delete_arrived ps st))))"
proof (induction ps arbitrary: st)
  case Nil
  show ?case by (simp add: failure_logged_def)
next
  case (Cons p ps)
  let ?st' = "try_delete st p"
  from Cons[of ?st'] obtain l2 where
    l2: "log_file (delete_arrived ps ?st') = log_file ?st' @ l2"
    and sub: "set (parcels (delete_arrived ps ?st')) \<subseteq> set (parcels ?st')"
    and fl: "\<And>k info. (k, info) \<in> set (parcels (delete_arrived ps ?st')) \<Longrightarrow> k \<in> set ps \<Longrightarrow> failure_logged k l2"
    and keep: "\<And>k info. (k, info) \<in> set (parcels ?st') \<Longrightarrow> k \<notin> set ps \<Longrightarrow> (k, info) \<in> set (parcels (delete_arrived ps ?st'))"
    and only: "\<And>k. failure_logged k l2 \<Longrightarrow> k \<in> set ps"
    and stay: "\<And>k info. distinct ps \<Longrightarrow> failure_logged k l2 \<Longrightarrow> (k, info) \<in> set (parcels ?st')
            \<Longrightarrow> (k, info) \<in> set (parcels (delete_arrived ps ?st'))"
    by blast
  from try_delete_cases[of st p] show ?case
  proof (elim disjE exE conjE)
    fix l1
    assume p1: "parcels ?st' = parcels st" and g1: "log_file ?st' = log_file st @ l1"
      and f1: "\<forall>k. failure_logged k l1 \<longleftrightarrow> k = p"
    have lg: "log_file (delete_arrived (p # ps) st) = log_file st @ (l1 @ l2)"
      by (simp add: l2 g1)
    show ?thesis
    proof (intro exI[of _ "l1 @ l2"] conjI allI impI)
      show "log_file (delete_arrived (p # ps) st) = log_file st @ l1 @ l2" using lg by simp
      show "set (parcels (delete_arrived (p # ps) st)) \<subseteq> set (parcels st)" using sub p1 by simp
    next
      fix k info
      assume "(k, info) \<in> set (parcels (delete_arrived (p # ps) st)) \<and> k \<in> set (p # ps)"
      then show "failure_logged k (l1 @ l2)" using fl[of k info] f1 by auto
    next
      fix k info
      assume "(k, info) \<in> set (parcels st) \<and> k \<notin> set (p # ps)"
      then show "(k, info) \<in> set (parcels (delete_arrived (p # ps) st))"
        using keep[of k info] p1 by simp
    next
      fix k assume "failure_logged k (l1 @ l2)"
      then show "k \<in> set (p # ps)" using f1 only[of k] by auto
    next
      fix k info
      assume d: "distinct (p # ps)" and a: "failure_logged k (l1 @ l2) \<and> (k, info) \<in> set (parcels st)"
      show "(k, info) \<in> set (parcels (delete_arrived (p # ps) st))"
      proof (cases "failure_logged k l2")
        case True
        then show ?thesis using stay[of k info] d a p1 by simp
      next
        case False
        with a f1 have "k = p" by auto
        with d have "k \<notin> set ps" by simp
        then show ?thesis using keep[of k info] a p1 by simp
      qed
    qed
  next
    fix l1
    assume p1: "parcels ?st' = AList.delete p (parcels st)" and g1: "log_file ?st' = log_file st @ l1"
      and f1: "\<forall>k. \<not> failure_logged k l1"
    have lg: "log_file (delete_arrived (p # ps) st) = log_file st @ (l1 @ l2)"
      by (simp add: l2 g1)
    show ?thesis
    proof (intro exI[of _ "l1 @ l2"] conjI allI impI)
      show "log_file (delete_arrived (p # ps) st) = log_file st @ l1 @ l2" using lg by simp
      show "set (parcels (delete_arrived (p # ps) st)) \<subseteq> set (parcels st)"
        using sub p1 by (auto simp: set_delete)
    next
      fix k info
      assume a: "(k, info) \<in> set (parcels (delete_arrived (p # ps) st)) \<and> k \<in> set (p # ps)"
      then have "(k, info) \<in> set (AList.delete p (parcels st))" using sub p1 by auto
      then have "k \<noteq> p" by (auto simp: set_delete)
      with a show "failure_logged k (l1 @ l2)" using fl[of k info] by auto
    next
      fix k info
      assume "(k, info) \<in> set (parcels st) \<and> k \<notin> set (p # ps)"
      then show "(k, info) \<in> set (parcels (delete_arrived (p # ps) st))"
        using keep[of k info] p1 by (simp add: set_delete)
    next
      fix k assume "failure_logged k (l1 @ l2)"
      then show "k \<in> set (p # ps)" using f1 only[of k] by auto
    next
      fix k info
      assume d: "distinct (p # ps)" and a: "failure_logged k (l1 @ l2) \<and> (k, info) \<in> set (parcels st)"
      then have f2: "failure_logged k l2" using f1 by simp
      then have "k \<in> set ps" using only by simp
      with d have "k \<noteq> p" by auto
      with a have "(k, info) \<in> set (parcels ?st')" by (simp add: p1 set_delete)
      then show "(k, info) \<in> set (parcels (delete_arrived (p # ps) st))"
        using stay[of k info] d f2 by simp
    qed
  qed
qed

lemma distinct_scan: "distinct (map fst ps) \<Longrightarrow> distinct (map fst (scan d ms ps))"
proof (induction ms arbitrary: ps)
  case Nil
  then show ?case by simp
next
  case (Cons m ms)
  show ?case
    by (cases "triples_get d (Some (Str m)) (Some hasPossession) None")
       (simp_all add: Cons Let_def AList.distinct_update)
qed

lemma arrived_iff:
  "k \<in> set (arrived ps) \<longleftrightarrow>
     (\<exists>info. (k, info) \<in> set ps \<and> Some (Str (current_position info)) = destination info)"
  by (auto simp: arrived_def intro!: image_eqI)

lemma distinct_arrived: "distinct (map fst ps) \<Longrightarrow> distinct (arrived ps)"
  unfolding arrived_def by (rule distinct_map_filter)




text \<open>
  Claim C5, as the program has it. When, during a \<^verbatim>\<open>get_parcels\<close>, the deletion of an
  arrived parcel k fails (the call \<^verbatim>\<open>delete_parcel(k)\<close> of the cleanup raises an error e),
  the sync is not aborted: the error is caught and logged as "Failed to delete parcel k: e",
  \<^verbatim>\<open>get_parcels\<close> returns, and k is still in the map returned, with its position equal to
  its destination. The \<^verbatim>\<open>del\<close> is skipped when \<^verbatim>\<open>delete_parcel\<close> raises.
\<close>

theorem get_parcels_failed_stays:
  "(k, Inl e) \<in> set (sync_deletions st)
   \<longrightarrow> fst (get_parcels st) = Inr ()
       \<and> (ERROR, FailedToDelete k e) \<in> set (new_entries st (snd (get_parcels st)))
       \<and> (\<exists>info. (k, info) \<in> set (parcels (snd (get_parcels st)))
                 \<and> Some (Str (current_position info)) = destination info)"
proof (intro impI conjI)
  show "fst (get_parcels st) = Inr ()" by (rule get_parcels_returns)
next
  assume a: "(k, Inl e) \<in> set (sync_deletions st)"
  from get_parcels_unfold[of st] obtain st2 l0 where
    g: "get_parcels st = (Inr (), delete_arrived (arrived (parcels st2)) st2)"
    and sd: "sync_deletions st = deletions (arrived (parcels st2)) st2"
    and p2: "parcels st2 = scan (db st) (map fst (adjacency_matrix st)) []"
    and l0: "log_file st2 = log_file st @ l0" by blast
  have dist: "distinct (arrived (parcels st2))"
    unfolding p2 by (rule distinct_arrived, rule distinct_scan) simp
  from a sd have d: "(k, Inl e) \<in> set (deletions (arrived (parcels st2)) st2)" by simp
  from deletions_logged[OF d] obtain ls where
    ls: "log_file (delete_arrived (arrived (parcels st2)) st2) = log_file st2 @ ls"
    and e: "(ERROR, FailedToDelete k e) \<in> set ls" by blast
  from delete_arrived_entries[of "arrived (parcels st2)" st2] obtain ls' where
    ls': "log_file (delete_arrived (arrived (parcels st2)) st2) = log_file st2 @ ls'"
    and stay: "\<And>k info. distinct (arrived (parcels st2)) \<Longrightarrow> failure_logged k ls'
            \<Longrightarrow> (k, info) \<in> set (parcels st2)
            \<Longrightarrow> (k, info) \<in> set (parcels (delete_arrived (arrived (parcels st2)) st2))"
    by blast
  from ls ls' have same: "ls' = ls" by simp
  have n: "new_entries st (snd (get_parcels st)) = l0 @ ls"
    by (rule new_entries_append) (simp add: g ls l0)
  show "(ERROR, FailedToDelete k e) \<in> set (new_entries st (snd (get_parcels st)))"
    unfolding n using e by simp
  have f: "failure_logged k ls'" unfolding same failure_logged_iff using e by blast
  have "k \<in> fst ` set (deletions (arrived (parcels st2)) st2)"
    using d by (rule rev_image_eqI) simp
  then have "k \<in> set (arrived (parcels st2))"
    using deletions_keys[of "arrived (parcels st2)" st2] by (metis set_map)
  then obtain info where i: "(k, info) \<in> set (parcels st2)"
      "Some (Str (current_position info)) = destination info"
    by (auto simp: arrived_iff)
  have "(k, info) \<in> set (parcels (snd (get_parcels st)))"
    unfolding g snd_conv by (rule stay[OF dist f i(1)])
  with i(2) show "\<exists>info. (k, info) \<in> set (parcels (snd (get_parcels st)))
               \<and> Some (Str (current_position info)) = destination info" by blast
qed

theorem get_parcels_failed_stays_witness:
  "(Str ''parcel1'', Inl StoreError) \<in> set (sync_deletions guarded_system)
   \<and> fst (get_parcels guarded_system) = Inr ()
   \<and> (ERROR, FailedToDelete (Str ''parcel1'') StoreError)
        \<in> set (new_entries guarded_system (snd (get_parcels guarded_system)))
   \<and> (\<exists>info. (Str ''parcel1'', info) \<in> set (parcels (snd (get_parcels guarded_system)))
               \<and> Some (Str (current_position info)) = destination info)"
proof -
  have h: "(Str ''parcel1'', Inl StoreError) \<in> set (sync_deletions guarded_system)"
    by code_simp
  from get_parcels_failed_stays[of "Str ''parcel1''" StoreError guarded_system] h
  show ?thesis by simp
qed

text \<open>
  Claim C5 as stated fails: in \<open>guarded_system\<close> the deletion of parcel1 fails with a store
  error (that of parcel2 succeeds), the sync returns, and parcel1 is in the map returned.
\<close>

theorem get_parcels_failed_stays_counterexample:
  "sync_deletions guarded_system = [(Str ''parcel1'', Inl StoreError), (Str ''parcel2'', Inr ())]
   \<and> fst (get_parcels guarded_system) = Inr ()
   \<and> parcels (snd (get_parcels guarded_system))
     = [(Str ''parcel1'', \<lparr>current_position = ''module1'', destination = Some (Str ''module1'')\<rparr>)]"
  by code_simp

section \<open>add\_parcel with an identifier new to the store\<close>

lemma scan_Cons:
  "scan d (m # ms) ps =
     (case occupant d m of
        None \<Rightarrow> scan d ms ps
      | Some p \<Rightarrow> scan d ms
          (AList.update p \<lparr>current_position = m, destination = destination_of d p\<rparr> ps))"
  by (simp add: occupant_def destination_of_def Let_def split: list.split)

lemma scan_keys:
  "k \<in> fst ` set (scan d ms ps) \<Longrightarrow> k \<in> fst ` set ps \<or> (\<exists>m \<in> set ms. occupant d m = Some k)"
proof (induction ms arbitrary: ps)
  case Nil
  then show ?case by simp
next
  case (Cons m ms)
  show ?case
  proof (cases "occupant d m")
    case None
    with Cons show ?thesis by (auto simp: scan_Cons simp del: scan.simps)
  next
    case (Some p)
    from Cons.prems have "k \<in> fst ` set (scan d ms
          (AList.update p \<lparr>current_position = m, destination = destination_of d p\<rparr> ps))"
      by (simp add: scan_Cons Some del: scan.simps)
    from Cons.IH[OF this] show ?thesis
      using Some by (auto simp: AList.dom_update)
  qed
qed

lemma scan_map_of:
  assumes "\<forall>m \<in> set ms. occupant d m = Some p \<longrightarrow> m = start"
  shows "map_of (scan d ms ps) p =
     (if start \<in> set ms \<and> occupant d start = Some p
      then Some \<lparr>current_position = start, destination = destination_of d p\<rparr>
      else map_of ps p)"
  using assms
proof (induction ms arbitrary: ps)
  case Nil
  then show ?case by simp
next
  case (Cons m ms)
  then have ih: "\<And>ps. map_of (scan d ms ps) p =
     (if start \<in> set ms \<and> occupant d start = Some p
      then Some \<lparr>current_position = start, destination = destination_of d p\<rparr>
      else map_of ps p)" by simp
  show ?case
  proof (cases "occupant d m")
    case None
    then have "m \<noteq> start \<or> occupant d start \<noteq> Some p" by auto
    with None show ?thesis by (auto simp: scan_Cons ih simp del: scan.simps)
  next
    case (Some q)
    show ?thesis
    proof (cases "q = p")
      case True
      with Some Cons.prems have "m = start" by simp
      with Some True show ?thesis
        by (simp add: scan_Cons ih AList.update_conv' del: scan.simps)
    next
      case False
      with Some have "m \<noteq> start \<or> occupant d start \<noteq> Some p" by auto
      with Some False show ?thesis
        by (auto simp: scan_Cons ih AList.update_conv' simp del: scan.simps)
    qed
  qed
qed

lemma occupant_fact: "occupant d m = Some k \<Longrightarrow> (m, hasPossession, k) \<in> set (facts d)"
proof -
  assume a: "occupant d m = Some k"
  then obtain t ts where t: "triples_get d (Some (Str m)) (Some hasPossession) None = t # ts" "obj t = k"
    by (auto simp: occupant_def split: list.splits)
  then have "t \<in> set (triples_get d (Some (Str m)) (Some hasPossession) None)" by simp
  then have "t \<in> set (facts d)" "fst t = m" "fst (snd t) = hasPossession"
    by (auto simp: triples_get_def bound_def)
  with t(2) show ?thesis by (cases t) (auto simp: obj_def)
qed

lemma vocabulary_distinct:
  "hasPossession \<noteq> rdf_type" "hasPossession \<noteq> hasDestination" "hasPossession \<noteq> isPossessedBy"
  "hasDestination \<noteq> rdf_type" "hasDestination \<noteq> isPossessedBy" "hasDestination \<noteq> hasPossession"
  by (simp_all add: hasPossession_def rdf_type_def hasDestination_def isPossessedBy_def ns_def)

lemma fold_insert_fact:
  "\<exists>rest. fold insert_fact ts fs = fs @ rest \<and> set rest = set ts - set fs"
proof (induction ts arbitrary: fs)
  case Nil
  then show ?case by simp
next
  case (Cons t ts)
  show ?case
  proof (cases "t \<in> set fs")
    case True
    then have i: "insert_fact t fs = fs" by (simp add: insert_fact_def)
    from Cons[of fs] obtain rest where r: "fold insert_fact ts fs = fs @ rest" "set rest = set ts - set fs"
      by blast
    have "set rest = set (t # ts) - set fs" using r(2) True by auto
    with r(1) i show ?thesis by simp
  next
    case False
    then have i: "insert_fact t fs = fs @ [t]" by (simp add: insert_fact_def)
    from Cons[of "fs @ [t]"] obtain rest where
      r: "fold insert_fact ts (fs @ [t]) = (fs @ [t]) @ rest" "set rest = set ts - set (fs @ [t])"
      by blast
    have "fold insert_fact (t # ts) fs = fs @ (t # rest)" using r(1) i by simp
    moreover have "set (t # rest) = set (t # ts) - set fs" using r(2) False by auto
    ultimately show ?thesis by blast
  qed
qed

lemma add_parcel_unfold:
  "add_parcel st dest start =
     (case triples_add (db st) (parcel_facts (minted_iri st) dest start) of
        (Inl e, d) \<Rightarrow> (Inl e, logging (st\<lparr>db := d\<rparr>) ERROR (AddParcelFailed e))
      | (Inr _, d) \<Rightarrow>
          (case get_parcels (st\<lparr>db := d, parcel_counter := parcel_counter st + 1\<rparr>) of
             (Inl e, st') \<Rightarrow> (Inl e, logging st' ERROR (AddParcelFailed e))
           | (Inr _, st') \<Rightarrow> (Inr (), st')))"
  by (simp add: add_parcel_def minted_iri_def parcel_facts_def Let_def)


lemma distinct_parcels_try_delete:
  "distinct (map fst (parcels st)) \<Longrightarrow> distinct (map fst (parcels (try_delete st p)))"
proof -
  assume d: "distinct (map fst (parcels st))"
  from try_delete_cases[of st p]
  have "parcels (try_delete st p) = parcels st \<or> parcels (try_delete st p) = AList.delete p (parcels st)"
    by blast
  then show ?thesis using d by (auto simp: AList.distinct_delete)
qed

lemma distinct_parcels_delete_arrived:
  "distinct (map fst (parcels st)) \<Longrightarrow> distinct (map fst (parcels (delete_arrived ps st)))"
  by (induction ps arbitrary: st) (simp_all add: distinct_parcels_try_delete)

lemma triples_get_iff:
  "t \<in> set (triples_get d (Some (Str s)) (Some q) None)
     \<longleftrightarrow> t \<in> set (facts d) \<and> fst t = s \<and> fst (snd t) = q"
  by (cases t) (auto simp: triples_get_def bound_def)

lemma triples_get_append:
  assumes "facts d' = facts d @ rest"
  shows "triples_get d' s q ob = triples_get d s q ob @ triples_get (d\<lparr>facts := rest\<rparr>) s q ob"
  using assms by (simp add: triples_get_def)

lemma parcel_facts_mention: "t \<in> set (parcel_facts p dest start) \<Longrightarrow> mentions (Str p) t"
  by (auto simp: parcel_facts_def mentions_def subj_def obj_def)

lemma parcel_facts_possession:
  "t \<in> set (parcel_facts p dest start) \<Longrightarrow> fst (snd t) = hasPossession \<Longrightarrow> t = (start, hasPossession, Str p)"
  by (auto simp: parcel_facts_def vocabulary_distinct[symmetric])

lemma parcel_facts_destination:
  "t \<in> set (parcel_facts p dest start) \<Longrightarrow> fst (snd t) = hasDestination \<Longrightarrow> t = (p, hasDestination, Str dest)"
  by (auto simp: parcel_facts_def vocabulary_distinct[symmetric])

lemma all_equal_Cons:
  assumes "x \<in> set xs" and "\<And>t. t \<in> set xs \<Longrightarrow> t = x"
  shows "\<exists>ts. xs = x # ts"
proof (cases xs)
  case Nil
  with assms(1) show ?thesis by simp
next
  case (Cons y ys)
  then have "y = x" using assms(2)[of y] by simp
  with Cons show ?thesis by simp
qed

text \<open>The store after the batch insert of a parcel that no fact mentioned before.\<close>

lemma added_parcel_store:
  assumes fresh: "\<not> list_ex (mentions (Str p)) (facts d)"
    and free: "triples_get d (Some (Str start)) (Some hasPossession) None = []"
    and acc: "\<not> denied d (Add (parcel_facts p dest start))"
    and add: "triples_add d (parcel_facts p dest start) = (r, d')"
  shows "r = Inr ()"
    and "set (facts d') = set (facts d) \<union> set (parcel_facts p dest start)"
    and "occupant d' start = Some (Str p)"
    and "destination_of d' (Str p) = Some (Str dest)"
proof -
  let ?b = "parcel_facts p dest start"
  from fold_insert_fact[of ?b "facts d"] obtain rest where
    rest: "fold insert_fact ?b (facts d) = facts d @ rest" "set rest = set ?b - set (facts d)"
    by blast
  have nm: "t \<in> set (facts d) \<Longrightarrow> \<not> mentions (Str p) t" for t
    using fresh by (auto simp: list_ex_iff)
  have "t \<in> set ?b \<Longrightarrow> t \<notin> set (facts d)" for t
    using nm[of t] parcel_facts_mention[of t p dest start] by blast
  then have sr: "set rest = set ?b" using rest(2) by blast
  from add acc show "r = Inr ()" by (simp add: triples_add_def)
  from add acc have f: "facts d' = facts d @ rest"
    by (auto simp: triples_add_def rest(1))
  then show "set (facts d') = set (facts d) \<union> set ?b" using sr by simp
  let ?r = "d\<lparr>facts := rest\<rparr>"
  have fr: "set (facts ?r) = set ?b" using sr by simp
  have g: "triples_get d' (Some (Str start)) (Some hasPossession) None
             = triples_get ?r (Some (Str start)) (Some hasPossession) None"
    using triples_get_append[OF f] free by simp
  have m1: "(start, hasPossession, Str p) \<in> set (triples_get ?r (Some (Str start)) (Some hasPossession) None)"
    unfolding triples_get_iff fr by (simp add: parcel_facts_def)
  have m2: "t = (start, hasPossession, Str p)"
    if "t \<in> set (triples_get ?r (Some (Str start)) (Some hasPossession) None)" for t
  proof -
    from that have "t \<in> set ?b" "fst (snd t) = hasPossession"
      unfolding triples_get_iff fr by simp_all
    then show ?thesis by (rule parcel_facts_possession)
  qed
  have "\<exists>ts. triples_get ?r (Some (Str start)) (Some hasPossession) None = (start, hasPossession, Str p) # ts"
    by (rule all_equal_Cons[OF m1]) (rule m2)
  then obtain ts where
    "triples_get ?r (Some (Str start)) (Some hasPossession) None = (start, hasPossession, Str p) # ts"
    by (elim exE)
  then show "occupant d' start = Some (Str p)"
    by (simp add: occupant_def g obj_def)
  have "triples_get d (Some (Str p)) (Some hasDestination) None = []"
  proof (rule ccontr)
    assume "triples_get d (Some (Str p)) (Some hasDestination) None \<noteq> []"
    then have "hd (triples_get d (Some (Str p)) (Some hasDestination) None)
                \<in> set (triples_get d (Some (Str p)) (Some hasDestination) None)"
      by (rule hd_in_set)
    then obtain t where "t \<in> set (triples_get d (Some (Str p)) (Some hasDestination) None)" ..
    then have "t \<in> set (facts d)" "fst t = p" unfolding triples_get_iff by simp_all
    then show False using nm[of t] by (simp add: mentions_def subj_def)
  qed
  then have h: "triples_get d' (Some (Str p)) (Some hasDestination) None
             = triples_get ?r (Some (Str p)) (Some hasDestination) None"
    using triples_get_append[OF f] by simp
  have n1: "(p, hasDestination, Str dest) \<in> set (triples_get ?r (Some (Str p)) (Some hasDestination) None)"
    unfolding triples_get_iff fr by (simp add: parcel_facts_def)
  have n2: "t = (p, hasDestination, Str dest)"
    if "t \<in> set (triples_get ?r (Some (Str p)) (Some hasDestination) None)" for t
  proof -
    from that have "t \<in> set ?b" "fst (snd t) = hasDestination"
      unfolding triples_get_iff fr by simp_all
    then show ?thesis by (rule parcel_facts_destination)
  qed
  have "\<exists>ts. triples_get ?r (Some (Str p)) (Some hasDestination) None = (p, hasDestination, Str dest) # ts"
    by (rule all_equal_Cons[OF n1]) (rule n2)
  then obtain ts' where
    "triples_get ?r (Some (Str p)) (Some hasDestination) None = (p, hasDestination, Str dest) # ts'"
    by (elim exE)
  then show "destination_of d' (Str p) = Some (Str dest)"
    by (simp add: destination_of_def h obj_def)
qed


lemma parcel_counter_try_delete: "parcel_counter (try_delete st p) = parcel_counter st"
proof -
  obtain r st' where d: "delete_parcel (logging st INFO (DeletingParcel p)) p = (r, st')"
    by (cases "delete_parcel (logging st INFO (DeletingParcel p)) p")
  have "parcel_counter (snd (delete_parcel (logging st INFO (DeletingParcel p)) p)) = parcel_counter st"
    by (simp add: delete_parcel_def Let_def split: prod.split)
  then have "parcel_counter st' = parcel_counter st" by (simp add: d)
  then show ?thesis using d by (cases r; cases p) (auto simp: try_delete_def)
qed

lemma parcel_counter_delete_arrived: "parcel_counter (delete_arrived ps st) = parcel_counter st"
  by (induction ps arbitrary: st) (simp_all add: parcel_counter_try_delete)

lemma parcel_counter_find_arrived: "parcel_counter (snd (find_arrived ps st acc)) = parcel_counter st"
  by (induction ps st acc rule: find_arrived.induct) (simp_all split: node.split)

lemma parcel_counter_get_parcels: "parcel_counter (snd (get_parcels st)) = parcel_counter st"
proof -
  let ?st1 = "st\<lparr>parcels := scan (db st) (map fst (adjacency_matrix st)) []\<rparr>"
  obtain r st2 where f: "find_arrived (parcels ?st1) ?st1 [] = (r, st2)"
    by (cases "find_arrived (parcels ?st1) ?st1 []")
  have "parcel_counter st2 = parcel_counter ?st1"
    using parcel_counter_find_arrived[of "parcels ?st1" ?st1 "[]"] f by simp
  then show ?thesis
    using f by (cases r) (simp_all add: get_parcels_def Let_def parcel_counter_delete_arrived)
qed

text \<open>
  When the identifier that \<^verbatim>\<open>add_parcel(dest, start)\<close> mints is new to the store, the call
  does add one parcel. If no fact of the store mentions the minted identifier, start is a
  module of the model that holds no parcel, dest differs from start and the store carries out
  the insert, then the call returns, the counter is incremented, the map after the call holds
  the minted parcel with position start and destination dest, and every other parcel of the
  map was held by a module of the model before the call.
\<close>

theorem add_parcel_fresh:
  assumes fresh: "\<not> list_ex (mentions (Str (minted_iri st))) (facts (db st))"
    and member: "start \<in> fst ` set (adjacency_matrix st)"
    and free: "triples_get (db st) (Some (Str start)) (Some hasPossession) None = []"
    and differ: "dest \<noteq> start"
    and acc: "\<not> denied (db st) (Add (parcel_facts (minted_iri st) dest start))"
  shows "fst (add_parcel st dest start) = Inr ()
     \<and> parcel_counter (snd (add_parcel st dest start)) = parcel_counter st + 1
     \<and> map_of (parcels (snd (add_parcel st dest start))) (Str (minted_iri st))
         = Some \<lparr>current_position = start, destination = Some (Str dest)\<rparr>
     \<and> (\<forall>k \<in> fst ` set (parcels (snd (add_parcel st dest start))). k \<noteq> Str (minted_iri st) \<longrightarrow>
          (\<exists>m \<in> fst ` set (adjacency_matrix st). (m, hasPossession, k) \<in> set (facts (db st))))"
proof -
  let ?p = "minted_iri st"
  let ?info = "\<lparr>current_position = start, destination = Some (Str dest)\<rparr>"
  let ?ms = "map fst (adjacency_matrix st)"
  obtain r d' where add: "triples_add (db st) (parcel_facts ?p dest start) = (r, d')"
    by (cases "triples_add (db st) (parcel_facts ?p dest start)")
  note store = added_parcel_store[OF fresh free acc add]
  let ?st' = "st\<lparr>db := d', parcel_counter := parcel_counter st + 1\<rparr>"
  from get_parcels_unfold[of ?st'] obtain st2 l0 where
    g: "get_parcels ?st' = (Inr (), delete_arrived (arrived (parcels st2)) st2)"
    and p2: "parcels st2 = scan d' ?ms []"
    by auto
  let ?fin = "delete_arrived (arrived (parcels st2)) st2"
  have step: "add_parcel st dest start =
      (case get_parcels ?st' of
         (Inl e, st') \<Rightarrow> (Inl e, logging st' ERROR (AddParcelFailed e))
       | (Inr _, st') \<Rightarrow> (Inr (), st'))"
    by (simp add: add_parcel_unfold add store(1))
  have res: "add_parcel st dest start = (Inr (), ?fin)"
    unfolding step g by simp
  have nm: "t \<in> set (facts (db st)) \<Longrightarrow> \<not> mentions (Str ?p) t" for t
    using fresh by (auto simp: list_ex_iff)
  have poss: "(m, hasPossession, k) \<in> set (facts (db st)) \<or> (m = start \<and> k = Str ?p)"
    if "occupant d' m = Some k" for m k
  proof -
    from occupant_fact[OF that] have "(m, hasPossession, k) \<in> set (facts d')" .
    then have "(m, hasPossession, k) \<in> set (facts (db st))
               \<or> (m, hasPossession, k) \<in> set (parcel_facts ?p dest start)"
      unfolding store(2) by simp
    then show ?thesis
      using parcel_facts_possession[of "(m, hasPossession, k)" ?p dest start] by auto
  qed
  have uniq: "\<forall>m \<in> set ?ms. occupant d' m = Some (Str ?p) \<longrightarrow> m = start"
  proof (intro ballI impI)
    fix m assume "occupant d' m = Some (Str ?p)"
    from poss[OF this] show "m = start"
      using nm[of "(m, hasPossession, Str ?p)"] by (auto simp: mentions_def obj_def)
  qed
  have sc: "map_of (scan d' ?ms []) (Str ?p) = Some ?info"
    using scan_map_of[OF uniq, of "[]"] member store(3,4) by simp
  have dk: "distinct (map fst (parcels st2))"
    unfolding p2 by (rule distinct_scan) simp
  have in2: "(Str ?p, ?info) \<in> set (parcels st2)"
    using sc unfolding p2 by (rule map_of_SomeD)
  have "Str ?p \<notin> set (arrived (parcels st2))"
  proof
    assume "Str ?p \<in> set (arrived (parcels st2))"
    then obtain info where i: "(Str ?p, info) \<in> set (parcels st2)"
      "Some (Str (current_position info)) = destination info"
      unfolding arrived_iff by blast
    from dk in2 i(1) have "info = ?info"
      by (meson eq_key_imp_eq_value)
    with i(2) differ show False by simp
  qed
  with in2 have fin: "(Str ?p, ?info) \<in> set (parcels ?fin)"
    using delete_arrived_entries[of "arrived (parcels st2)" st2] by blast
  have "distinct (map fst (parcels ?fin))"
    using dk by (rule distinct_parcels_delete_arrived)
  then have c3: "map_of (parcels ?fin) (Str ?p) = Some ?info"
    using fin by (rule map_of_is_SomeI)
  have c4: "\<exists>m \<in> fst ` set (adjacency_matrix st). (m, hasPossession, k) \<in> set (facts (db st))"
    if k: "k \<in> fst ` set (parcels ?fin)" "k \<noteq> Str ?p" for k
  proof -
    have "set (parcels ?fin) \<subseteq> set (parcels st2)"
      using delete_arrived_entries[of "arrived (parcels st2)" st2] by blast
    with k(1) have "k \<in> fst ` set (scan d' ?ms [])" unfolding p2 by auto
    from scan_keys[OF this] obtain m where m: "m \<in> set ?ms" "occupant d' m = Some k"
      by auto
    from poss[OF m(2)] k(2) have "(m, hasPossession, k) \<in> set (facts (db st))" by simp
    with m(1) show ?thesis by auto
  qed
  have c2: "parcel_counter ?fin = parcel_counter st + 1"
    using parcel_counter_get_parcels[of ?st'] unfolding g by simp
  show ?thesis
    unfolding res using c2 c3 c4 by simp
qed

theorem add_parcel_fresh_witness:
  "\<not> list_ex (mentions (Str (minted_iri ring_system))) (facts (db ring_system))
   \<and> ''module2'' \<in> fst ` set (adjacency_matrix ring_system)
   \<and> triples_get (db ring_system) (Some (Str ''module2'')) (Some hasPossession) None = []
   \<and> ''module4'' \<noteq> ''module2''
   \<and> \<not> denied (db ring_system) (Add (parcel_facts (minted_iri ring_system) ''module4'' ''module2''))
   \<and> minted_iri ring_system = ns @ ''parcel2''
   \<and> fst (add_parcel ring_system ''module4'' ''module2'') = Inr ()
   \<and> map_of (parcels (snd (add_parcel ring_system ''module4'' ''module2''))) (Str (minted_iri ring_system))
       = Some \<lparr>current_position = ''module2'', destination = Some (Str ''module4'')\<rparr>"
proof -
  have h1: "\<not> list_ex (mentions (Str (minted_iri ring_system))) (facts (db ring_system))"
    by code_simp
  have h2: "''module2'' \<in> fst ` set (adjacency_matrix ring_system)"
    by (simp add: ring_system_def ring_matrix_def)
  have h3: "triples_get (db ring_system) (Some (Str ''module2'')) (Some hasPossession) None = []"
    by code_simp
  have h4: "''module4'' \<noteq> ''module2''"
    by simp
  have h5: "\<not> denied (db ring_system) (Add (parcel_facts (minted_iri ring_system) ''module4'' ''module2''))"
    by (simp add: ring_system_def ring_store_def)
  have h6: "minted_iri ring_system = ns @ ''parcel2''"
    by code_simp
  note t = add_parcel_fresh[OF h1 h2 h3 h4 h5]
  show ?thesis
    by (intro conjI h1 h2 h3 h4 h5 h6 t[THEN conjunct1] t[THEN conjunct2, THEN conjunct2, THEN conjunct1])
qed

text \<open>
  A parcel added on its own destination does not stay: the sync inside \<^verbatim>\<open>add_parcel\<close>
  finds it arrived and deletes it again.
\<close>

lemma add_parcel_at_destination:
  "fst (add_parcel ring_system ''module2'' ''module2'') = Inr ()
   \<and> parcels (snd (add_parcel ring_system ''module2'' ''module2''))
     = [(Str ''parcel1'', \<lparr>current_position = ''module1'', destination = Some (Str ''module3'')\<rparr>)]"
  by code_simp

section \<open>add\_parcel: the identifier it mints\<close>

text \<open>
  Claim C6 asks that \<^verbatim>\<open>add_parcel\<close> followed by a sync yields exactly one new parcel, whose
  identifier differs from those of all parcels in the store before the call. The identifier
  is \<^verbatim>\<open>parcel\<close> followed by the counter plus one, and the constructor seeds the counter with
  the number of parcels it finds, not with their identifiers. On \<open>parcel2_store\<close> the
  constructor finds one parcel, parcel2, and sets the counter to 1; \<^verbatim>\<open>add_parcel(module4,
  module3)\<close> then mints parcel2 again and returns normally. The store now holds both
  destinations and both positions for parcel2; the sync inside \<^verbatim>\<open>add_parcel\<close> reads
  parcel2 on module3 with its first destination, module3, takes it as arrived and deletes
  every fact about it. The map returned holds no parcel: neither a new one nor the one that
  was there.
\<close>

theorem add_parcel_collision:
  "(case init ''system1'' parcel2_store of
      Inl e \<Rightarrow> False
    | Inr st \<Rightarrow>
        parcels st = [(Str (ns @ ''parcel2''),
                       \<lparr>current_position = ''module1'', destination = Some (Str ''module3'')\<rparr>)]
        \<and> parcel_counter st = 1
        \<and> minted_iri st = ns @ ''parcel2''
        \<and> list_ex (mentions (Str (minted_iri st))) (facts (db st))
        \<and> fst (add_parcel st ''module4'' ''module3'') = Inr ()
        \<and> journal (db (snd (add_parcel st ''module4'' ''module3'')))
            = [Add (parcel_facts (ns @ ''parcel2'') ''module4'' ''module3''),
               Delete [(ns @ ''parcel2'', rdf_type, Str Parcel),
                       (ns @ ''parcel2'', hasDestination, Str ''module3''),
                       (ns @ ''parcel2'', isPossessedBy, Str ''module1''),
                       (ns @ ''parcel2'', rdf_type, Str NamedIndividual),
                       (ns @ ''parcel2'', hasDestination, Str ''module4''),
                       (ns @ ''parcel2'', isPossessedBy, Str ''module3''),
                       (''module1'', hasPossession, Str (ns @ ''parcel2'')),
                       (''module3'', hasPossession, Str (ns @ ''parcel2''))]]
        \<and> parcels (snd (add_parcel st ''module4'' ''module3'')) = []
        \<and> \<not> list_ex (mentions (Str (ns @ ''parcel2'')))
               (facts (db (snd (add_parcel st ''module4'' ''module3'')))))"
  by code_simp

end
